theory Spec2Isabelle
  imports Main
begin

section \<open>Strings\<close>

text \<open>
  The program's strings are modelled as \<open>string\<close>; one \<open>char\<close> stands for one unit of
  the source string, and \<open>length\<close> is the source's \<open>.length\<close>.
\<close>

definition startsWith :: "string \<Rightarrow> string \<Rightarrow> bool" where
  "startsWith s pat = (take (length pat) s = pat)"

text \<open>\<open>s.indexOf(pat)\<close>: the first index at which \<open>pat\<close> occurs, \<open>None\<close> for \<open>-1\<close>.\<close>

fun indexOf :: "string \<Rightarrow> string \<Rightarrow> nat option" where
  "indexOf [] pat = (if pat = [] then Some 0 else None)"
| "indexOf (c # cs) pat =
     (if startsWith (c # cs) pat then Some 0 else map_option Suc (indexOf cs pat))"

text \<open>\<open>s.slice(0, -n)\<close> and \<open>s.slice(-n)\<close> for \<open>n > 0\<close>, on strings and on arrays.\<close>

definition slice_front :: "'a list \<Rightarrow> nat \<Rightarrow> 'a list" where
  "slice_front s n = take (length s - n) s"

definition slice_back :: "'a list \<Rightarrow> nat \<Rightarrow> 'a list" where
  "slice_back s n = drop (length s - n) s"

text \<open>
  The character classes of the two regular expressions, on the characters of the model:
  \<open>\s\<close> is tab, line feed, vertical tab, form feed, carriage return, space and the
  no-break space; \<open>.\<close> is every character but line feed and carriage return.
\<close>

definition is_space :: "char \<Rightarrow> bool" where
  "is_space c = (c \<in> {CHR 0x09, CHR 0x0A, CHR 0x0B, CHR 0x0C, CHR 0x0D, CHR 0x20, CHR 0xA0})"

definition is_dot :: "char \<Rightarrow> bool" where
  "is_dot c = (c \<noteq> CHR 0x0A \<and> c \<noteq> CHR 0x0D)"

definition trim :: "string \<Rightarrow> string" where
  "trim s = rev (dropWhile is_space (rev (dropWhile is_space s)))"

section \<open>ToolParser\<close>

text \<open>
  \<open>parameters\<close> of a tool call: the empty object, the value \<open>JSON.parse\<close> returned, or
  \<open>{ raw: text }\<close> when \<open>JSON.parse\<close> threw. \<open>JSON.parse\<close> is the language's own; it is
  the parameter \<open>json\<close> of the model, \<open>None\<close> when it throws.
\<close>

datatype 'j params = NoParams | Parsed 'j | Raw string

record 'j ToolCall =
  name :: string
  parameters :: "'j params"

text \<open>
  \<open>/name:\s*(.+?)(?:\n|$)/\<close> tried right after an occurrence of \<open>name:\<close>, with \<open>k\<close>
  characters given to \<open>\s*\<close>: the lazy group takes the run of \<open>.\<close> characters that
  follows, which must be non-empty and end at a line feed or at the end of the input.
\<close>

definition name_group :: "string \<Rightarrow> nat \<Rightarrow> string option" where
  "name_group r k =
     (let w = takeWhile is_dot (drop k r); rest = drop (k + length w) r
      in if w \<noteq> [] \<and> (rest = [] \<or> hd rest = CHR 0x0A) then Some w else None)"

text \<open>\<open>\s*\<close> is greedy: the longest run of spaces first, then shorter ones.\<close>

fun name_backtrack :: "string \<Rightarrow> nat \<Rightarrow> string option" where
  "name_backtrack r 0 = name_group r 0"
| "name_backtrack r (Suc k) =
     (case name_group r (Suc k) of Some w \<Rightarrow> Some w | None \<Rightarrow> name_backtrack r k)"

definition name_after :: "string \<Rightarrow> string option" where
  "name_after r = name_backtrack r (length (takeWhile is_space r))"

text \<open>\<open>content.match(/name:\s*(.+?)(?:\n|$)/)\<close>: group 1 of the leftmost match.\<close>

fun nameMatch :: "string \<Rightarrow> string option" where
  "nameMatch [] = None"
| "nameMatch (c # cs) =
     (if startsWith (c # cs) ''name:''
      then (case name_after (drop 5 (c # cs)) of
              Some w \<Rightarrow> Some w
            | None \<Rightarrow> nameMatch cs)
      else nameMatch cs)"

text \<open>
  \<open>/parameters:\s*(\{[\s\S]*\})/\<close> tried right after an occurrence of \<open>parameters:\<close>:
  after the spaces an opening brace, and the greedy group runs to the last closing
  brace of the input.
\<close>

definition last_brace :: "string \<Rightarrow> string option" where
  "last_brace s =
     (let t = dropWhile (\<lambda>c. c \<noteq> CHR ''}'') (rev s)
      in if t = [] then None else Some (rev t))"

definition params_after :: "string \<Rightarrow> string option" where
  "params_after r =
     (case dropWhile is_space r of
        [] \<Rightarrow> None
      | c # cs \<Rightarrow>
          if c = CHR ''{'' then map_option (\<lambda>g. c # g) (last_brace cs) else None)"

fun paramsMatch :: "string \<Rightarrow> string option" where
  "paramsMatch [] = None"
| "paramsMatch (c # cs) =
     (if startsWith (c # cs) ''parameters:''
      then (case params_after (drop 11 (c # cs)) of
              Some g \<Rightarrow> Some g
            | None \<Rightarrow> paramsMatch cs)
      else paramsMatch cs)"

definition parseToolContent :: "(string \<Rightarrow> 'j option) \<Rightarrow> string \<Rightarrow> 'j ToolCall option" where
  "parseToolContent json content =
     (case nameMatch content of
        None \<Rightarrow> None
      | Some n \<Rightarrow>
          Some \<lparr> name = trim n,
                 parameters =
                   (case paramsMatch content of
                      None \<Rightarrow> NoParams
                    | Some g \<Rightarrow>
                        (case json (trim g) of
                           Some v \<Rightarrow> Parsed v
                         | None \<Rightarrow> Raw g)) \<rparr>)"

text \<open>
  The name pattern read as a relation, apart from the order in which a search tries the
  matches: it matches at index \<open>i\<close> when \<open>name:\<close> stands there, some \<open>k\<close> characters that
  follow are all spaces, and after them some \<open>n > 0\<close> characters that are no line breaks
  end at a line feed or at the end of the content.
\<close>

definition dot_run :: "string \<Rightarrow> nat \<Rightarrow> bool" where
  "dot_run t n =
     (0 < n \<and> n \<le> length t \<and> list_all is_dot (take n t)
      \<and> (drop n t = [] \<or> hd (drop n t) = CHR 0x0A))"

definition name_pattern_at :: "string \<Rightarrow> nat \<Rightarrow> bool" where
  "name_pattern_at s i =
     (startsWith (drop i s) ''name:''
      \<and> list_ex (\<lambda>k. list_all is_space (take k (drop (i + 5) s))
                      \<and> list_ex (dot_run (drop k (drop (i + 5) s)))
                            [0..<Suc (length (drop k (drop (i + 5) s)))])
            [0..<Suc (length (drop (i + 5) s))])"

definition name_pattern_occurs :: "string \<Rightarrow> bool" where
  "name_pattern_occurs s = list_ex (name_pattern_at s) [0..<Suc (length s)]"

text \<open>
  A \<open>name:\<close> line, in the plain sense of the words: a line of the content (the lines
  are what line feeds separate) that begins, after spaces, with \<open>name:\<close>.
\<close>

fun split_lines :: "string \<Rightarrow> string list" where
  "split_lines [] = [[]]"
| "split_lines (c # cs) =
     (if c = CHR 0x0A then [] # split_lines cs
      else (case split_lines cs of l # ls \<Rightarrow> (c # l) # ls | [] \<Rightarrow> [[c]]))"

definition has_name_line :: "string \<Rightarrow> bool" where
  "has_name_line s =
     list_ex (\<lambda>l. startsWith (dropWhile is_space l) ''name:'') (split_lines s)"

record parser =
  buffer :: string
  inToolBlock :: bool
  toolBuffer :: string

definition new_parser :: parser where
  "new_parser = \<lparr> buffer = [], inToolBlock = False, toolBuffer = [] \<rparr>"

text \<open>
  The \<open>while (this.buffer.length > 0)\<close> loop of \<open>addChunk\<close>, with the parser's fields
  and the two locals \<open>text\<close> and \<open>toolCalls\<close> passed along; \<open>break\<close> returns.
\<close>

function addChunk_loop ::
  "(string \<Rightarrow> 'j option) \<Rightarrow> parser \<Rightarrow> string \<Rightarrow> 'j ToolCall list
     \<Rightarrow> parser \<times> string \<times> 'j ToolCall list" where
  "addChunk_loop json p text toolCalls =
     (if buffer p = [] then (p, text, toolCalls)
      else if \<not> inToolBlock p then
        (case indexOf (buffer p) ''<tool>'' of
           None \<Rightarrow>
             (if length (buffer p) > 6
              then (p\<lparr>buffer := slice_back (buffer p) 6\<rparr>,
                    text @ slice_front (buffer p) 6, toolCalls)
              else (p, text, toolCalls))
         | Some toolStart \<Rightarrow>
             addChunk_loop json
               (p\<lparr>buffer := drop (toolStart + 6) (buffer p),
                   inToolBlock := True, toolBuffer := []\<rparr>)
               (text @ take toolStart (buffer p)) toolCalls)
      else
        (let tb = toolBuffer p @ buffer p in
         case indexOf tb ''</tool>'' of
           None \<Rightarrow> (p\<lparr>toolBuffer := tb, buffer := []\<rparr>, text, toolCalls)
         | Some toolEnd \<Rightarrow>
             addChunk_loop json
               (p\<lparr>toolBuffer := [], buffer := drop (toolEnd + 7) tb, inToolBlock := False\<rparr>)
               text
               (case parseToolContent json (take toolEnd tb) of
                  Some toolCall \<Rightarrow> toolCalls @ [toolCall]
                | None \<Rightarrow> toolCalls)))"
  by pat_completeness auto
termination
  by (relation "measure (\<lambda>(json, p, text, toolCalls).
        length (buffer p) + (if inToolBlock p then length (toolBuffer p) else 0))")
     (auto simp: Let_def neq_Nil_conv)

definition addChunk ::
  "(string \<Rightarrow> 'j option) \<Rightarrow> parser \<Rightarrow> string
     \<Rightarrow> parser \<times> string \<times> 'j ToolCall list option" where
  "addChunk json p chunk =
     (case addChunk_loop json (p\<lparr>buffer := buffer p @ chunk\<rparr>) [] [] of
        (p', text, toolCalls) \<Rightarrow>
          (p', text, if toolCalls = [] then None else Some toolCalls))"

definition flush :: "parser \<Rightarrow> parser \<times> string" where
  "flush p = (new_parser, buffer p)"


text \<open>
  A run of the parser over the fragments of one response: every fragment through
  \<open>addChunk\<close>, the texts and the tool calls collected in order, then \<open>flush\<close>.
\<close>

definition calls_of :: "'j ToolCall list option \<Rightarrow> 'j ToolCall list" where
  "calls_of r = (case r of None \<Rightarrow> [] | Some toolCalls \<Rightarrow> toolCalls)"

fun feed ::
  "(string \<Rightarrow> 'j option) \<Rightarrow> parser \<Rightarrow> string list
     \<Rightarrow> parser \<times> string \<times> 'j ToolCall list" where
  "feed json p [] = (p, [], [])"
| "feed json p (chunk # chunks) =
     (case addChunk json p chunk of
        (p1, text, toolCalls) \<Rightarrow>
          (case feed json p1 chunks of
             (p2, text2, toolCalls2) \<Rightarrow>
               (p2, text @ text2, calls_of toolCalls @ toolCalls2)))"

definition run_parser ::
  "(string \<Rightarrow> 'j option) \<Rightarrow> string list \<Rightarrow> string \<times> 'j ToolCall list" where
  "run_parser json chunks =
     (case feed json new_parser chunks of
        (p, text, toolCalls) \<Rightarrow> (text @ snd (flush p), toolCalls))"

text \<open>A \<open>JSON.parse\<close> that always throws, for closed examples.\<close>

definition no_json :: "string \<Rightarrow> unit option" where
  "no_json s = None"

section \<open>MemoryManager\<close>

datatype role = User | Assistant | System | Tool

datatype MessageContent = TextPart string | ImageUrl string

datatype content = Str string | Parts "MessageContent list"

text \<open>A message; its \<open>timestamp\<close> is the wall clock and is left out.\<close>

record Message =
  role :: role
  content :: content

record CompactedMemory =
  summary :: string
  fromId :: nat
  toId :: nat
  messageCount :: nat

record MemoryManager =
  messageCache :: "string \<rightharpoonup> Message list"
  compactedMemories :: "string \<rightharpoonup> CompactedMemory list"

definition MAX_MESSAGES :: nat where "MAX_MESSAGES = 20"
definition COMPACT_THRESHOLD :: nat where "COMPACT_THRESHOLD = 15"
definition KEEP_RECENT :: nat where "KEEP_RECENT = 10"
definition MAX_TOKENS_ESTIMATE :: nat where "MAX_TOKENS_ESTIMATE = 8000"

definition new_memory :: MemoryManager where
  "new_memory = \<lparr> messageCache = Map.empty, compactedMemories = Map.empty \<rparr>"

definition getMessages :: "MemoryManager \<Rightarrow> string \<Rightarrow> Message list" where
  "getMessages m sessionId = (case messageCache m sessionId of None \<Rightarrow> [] | Some ms \<Rightarrow> ms)"

definition getCompactedMemories :: "MemoryManager \<Rightarrow> string \<Rightarrow> CompactedMemory list" where
  "getCompactedMemories m sessionId =
     (case compactedMemories m sessionId of None \<Rightarrow> [] | Some cs \<Rightarrow> cs)"

text \<open>
  \<open>Math.ceil(n / 2.5)\<close> for a length \<open>n\<close>: the quotient is \<open>2 n / 5\<close>, whose fractional
  part is a multiple of \<open>1/5\<close>, so the rounded division and the ceiling give
  \<open>\<lceil>2 n / 5\<rceil>\<close>.
\<close>

definition ceil_2_5 :: "nat \<Rightarrow> nat" where
  "ceil_2_5 n = (2 * n + 4) div 5"

fun part_tokens :: "MessageContent \<Rightarrow> nat" where
  "part_tokens (TextPart t) = ceil_2_5 (length t)"
| "part_tokens (ImageUrl u) = 85"

fun message_tokens :: "Message \<Rightarrow> nat" where
  "message_tokens msg =
     (case content msg of
        Str t \<Rightarrow> ceil_2_5 (length t)
      | Parts ps \<Rightarrow> sum_list (map part_tokens ps))"

fun estimateTokens :: "Message list \<Rightarrow> nat" where
  "estimateTokens [] = 0"
| "estimateTokens (msg # msgs) = message_tokens msg + estimateTokens msgs"

definition shouldCompact :: "MemoryManager \<Rightarrow> string \<Rightarrow> bool" where
  "shouldCompact m sessionId =
     (let messages = getMessages m sessionId in
      if length messages < COMPACT_THRESHOLD then False
      else length messages > MAX_MESSAGES \<or> estimateTokens messages > MAX_TOKENS_ESTIMATE)"

text \<open>
  The chat-completion call of \<open>generateSummary\<close>: it throws, or it answers with or
  without a content. The collaborator is a parameter, given whether a previous memory
  summary is among the messages (this selects the system prompt) and the messages (the
  conversation text).
\<close>

datatype completion = Throws | Answer "string option"

definition is_previous_summary :: "Message \<Rightarrow> bool" where
  "is_previous_summary msg =
     (role msg = System \<and>
      (case content msg of Str t \<Rightarrow> startsWith t ''[Memory Summary]'' | Parts ps \<Rightarrow> False))"

definition generateSummary :: "(bool \<Rightarrow> Message list \<Rightarrow> completion) \<Rightarrow> Message list \<Rightarrow> string" where
  "generateSummary openai messages =
     (case openai (find is_previous_summary messages \<noteq> None) messages of
        Throws \<Rightarrow> ''Summary generation failed''
      | Answer None \<Rightarrow> ''Summary unavailable''
      | Answer (Some t) \<Rightarrow> if t = [] then ''Summary unavailable'' else t)"

definition compactMemory ::
  "(bool \<Rightarrow> Message list \<Rightarrow> completion) \<Rightarrow> MemoryManager \<Rightarrow> string \<Rightarrow> MemoryManager" where
  "compactMemory openai m sessionId =
     (let messages = getMessages m sessionId in
      if length messages < COMPACT_THRESHOLD then m
      else
        let toCompact = slice_front messages KEEP_RECENT;
            toKeep = slice_back messages KEEP_RECENT
        in if toCompact = [] then m
           else
             let summary = generateSummary openai toCompact;
                 compacted = \<lparr> summary = summary, fromId = 0, toId = length toCompact,
                               messageCount = length toCompact \<rparr>;
                 summaryMessage = \<lparr> role = System,
                                    content = Str (''[Memory Summary]'' @ [CHR 0x0A] @ summary) \<rparr>
             in m\<lparr> compactedMemories :=
                      (compactedMemories m)
                        (sessionId \<mapsto> getCompactedMemories m sessionId @ [compacted]),
                    messageCache := (messageCache m)(sessionId \<mapsto> summaryMessage # toKeep) \<rparr>)"

text \<open>
  \<open>saveMessage\<close>: the push into the cache, then the check; the compaction it starts is
  not awaited, and is modelled as finished before the next call on the store. The
  sync to the API does not touch the cache.
\<close>

definition saveMessage ::
  "(bool \<Rightarrow> Message list \<Rightarrow> completion) \<Rightarrow> MemoryManager \<Rightarrow> string \<Rightarrow> role \<Rightarrow> string
     \<Rightarrow> MemoryManager" where
  "saveMessage openai m sessionId r c =
     (let m1 = m\<lparr> messageCache :=
                    (messageCache m)
                      (sessionId \<mapsto> getMessages m sessionId @ [\<lparr> role = r, content = Str c \<rparr>]) \<rparr>
      in if shouldCompact m1 sessionId then compactMemory openai m1 sessionId else m1)"

fun saveMessages ::
  "(bool \<Rightarrow> Message list \<Rightarrow> completion) \<Rightarrow> MemoryManager \<Rightarrow> string \<Rightarrow> (role \<times> string) list
     \<Rightarrow> MemoryManager" where
  "saveMessages openai m sessionId [] = m"
| "saveMessages openai m sessionId ((r, c) # rest) =
     saveMessages openai (saveMessage openai m sessionId r c) sessionId rest"


section \<open>SupervisorAgent\<close>

datatype ('j, 'r) StreamEvent =
    TextEvent string
  | ToolCallEvent "'j ToolCall"
  | ToolResultEvent "'j ToolCall" 'r
  | ErrorEvent string
  | DoneEvent

text \<open>
  What one call of \<open>execute\<close> does that can be observed, in order: the events it emits,
  the tool executions it starts, the messages it saves, and the calls of \<open>abort\<close> made
  on it from outside.
\<close>

datatype ('j, 'r) action =
    Emit "('j, 'r) StreamEvent"
  | Execute "'j ToolCall"
  | Save role string
  | AbortCalled

text \<open>
  What the model stream does at one step of the \<open>for await\<close> loop: it delivers a chunk
  with a content (empty when the delta has none), or it raises; \<open>abort\<close> may be called
  while the loop waits.
\<close>

datatype delivery = Chunk string | Raise string | AbortCall

text \<open>
  The collaborators of one run: \<open>JSON.parse\<close> and \<open>JSON.stringify\<close> (of the key
  \<open>{name, parameters}\<close> and of a tool result), \<open>executeTool\<close> (\<open>Inl\<close> when its promise
  rejects), the stream the model answers with at each turn, the configured \<open>maxTurns\<close>,
  and whether \<open>abort\<close> is called before the first turn.
\<close>

record ('j, 'r) env =
  parse_json :: "string \<Rightarrow> 'j option"
  stringify :: "'j ToolCall \<Rightarrow> string"
  stringify_result :: "'r \<Rightarrow> string"
  executeTool :: "'j ToolCall \<Rightarrow> string + 'r"
  llm :: "nat \<Rightarrow> delivery list"
  config_maxTurns :: "int option"
  early_abort :: bool

fun deduplicate_loop ::
  "('j ToolCall \<Rightarrow> string) \<Rightarrow> 'j ToolCall list \<Rightarrow> string set \<Rightarrow> 'j ToolCall list
     \<Rightarrow> 'j ToolCall list" where
  "deduplicate_loop key [] seen unique = unique"
| "deduplicate_loop key (tc # tcs) seen unique =
     (if key tc \<notin> seen
      then deduplicate_loop key tcs (insert (key tc) seen) (unique @ [tc])
      else deduplicate_loop key tcs seen unique)"

definition deduplicateToolCalls ::
  "('j ToolCall \<Rightarrow> string) \<Rightarrow> 'j ToolCall list \<Rightarrow> 'j ToolCall list" where
  "deduplicateToolCalls key toolCalls = deduplicate_loop key toolCalls {} []"

text \<open>
  \<open>JSON.stringify\<close> of the language, on values as \<open>JSON.parse\<close> gives them: the
  properties of an object are written in the order in which the object holds them, which
  for keys that are not array indices is the order of insertion. A number is given by
  the text written for it. Of a string, the quote, the backslash and the control
  characters are escaped.
\<close>

datatype json =
    JNull
  | JBool bool
  | JNumber string
  | JString string
  | JArray "json list"
  | JObject "(string \<times> json) list"








text \<open>The locals of \<open>streamLLM\<close>, the abort signal and the actions so far.\<close>

record ('j, 'r) stream =
  toolParser :: parser
  chunks :: "string list"
  toolCalls :: "'j ToolCall list"
  hasToolCalls :: bool
  aborted :: bool
  actions :: "('j, 'r) action list"

text \<open>The \<open>for await\<close> loop of \<open>streamLLM\<close>; \<open>Inl\<close> when the stream raises.\<close>

fun stream_loop ::
  "(string \<Rightarrow> 'j option) \<Rightarrow> delivery list \<Rightarrow> ('j, 'r) stream
     \<Rightarrow> string \<times> ('j, 'r) stream + ('j, 'r) stream" where
  "stream_loop js [] st = Inr st"
| "stream_loop js (AbortCall # ds) st =
     stream_loop js ds (st\<lparr>aborted := True, actions := actions st @ [AbortCalled]\<rparr>)"
| "stream_loop js (Raise msg # ds) st = Inl (msg, st)"
| "stream_loop js (Chunk c # ds) st =
     (if aborted st then Inr st
      else if c = [] then stream_loop js ds st
      else
        (case addChunk js (toolParser st) c of
           (p, text, parsedCalls) \<Rightarrow>
             let st1 = st\<lparr>toolParser := p, chunks := chunks st @ [c]\<rparr>;
                 st2 = (if text \<noteq> [] \<and> \<not> hasToolCalls st1
                        then st1\<lparr>actions := actions st1 @ [Emit (TextEvent text)]\<rparr>
                        else st1);
                 st3 = (case parsedCalls of
                          None \<Rightarrow> st2
                        | Some calls \<Rightarrow>
                            st2\<lparr>hasToolCalls := True,
                                toolCalls := toolCalls st2 @ calls,
                                actions := actions st2 @ map (\<lambda>call. Emit (ToolCallEvent call)) calls\<rparr>)
             in stream_loop js ds st3))"

text \<open>
  \<open>streamLLM\<close>: the loop, then the flush. It returns the response, the tool calls, the
  abort signal and the actions; \<open>Inl\<close> when the stream raised. Saving the trace has no
  part in the events and is left out.
\<close>

definition streamLLM ::
  "(string \<Rightarrow> 'j option) \<Rightarrow> delivery list \<Rightarrow> bool \<Rightarrow> ('j, 'r) action list
     \<Rightarrow> string \<times> bool \<times> ('j, 'r) action list
        + string \<times> 'j ToolCall list \<times> bool \<times> ('j, 'r) action list" where
  "streamLLM js ds ab acts =
     (case stream_loop js ds
             \<lparr> toolParser = new_parser, chunks = [], toolCalls = [], hasToolCalls = False,
               aborted = ab, actions = acts \<rparr> of
        Inl (msg, st) \<Rightarrow> Inl (msg, aborted st, actions st)
      | Inr st \<Rightarrow>
          (case flush (toolParser st) of
             (p, remaining) \<Rightarrow>
               Inr (concat (chunks st), toolCalls st, aborted st,
                    if remaining \<noteq> [] \<and> \<not> hasToolCalls st
                    then actions st @ [Emit (TextEvent remaining)]
                    else actions st)))"

text \<open>\<open>Promise.all\<close>: the results in order, or a rejection. Which rejection it is when
  several executions reject depends on their timing; the model takes the first in order,
  and only the message of the error event depends on the choice.\<close>

fun all_results :: "(string + 'r) list \<Rightarrow> string + 'r list" where
  "all_results [] = Inr []"
| "all_results (Inl msg # xs) = Inl msg"
| "all_results (Inr r # xs) =
     (case all_results xs of Inl msg \<Rightarrow> Inl msg | Inr rs \<Rightarrow> Inr (r # rs))"

definition resultText :: "('j, 'r) env \<Rightarrow> 'j ToolCall \<Rightarrow> 'r \<Rightarrow> string" where
  "resultText e tc r =
     ''[Tool Result for '' @ name tc @ '']'' @ [CHR 0x0A] @ stringify_result e r"

text \<open>
  The tool branch of one turn: the calls without duplicates are all started; when all
  return, each result is saved and emitted, in order. \<open>Inl\<close> when an execution rejects.
\<close>

definition execute_tools ::
  "('j, 'r) env \<Rightarrow> 'j ToolCall list \<Rightarrow> ('j, 'r) action list
     \<Rightarrow> string \<times> ('j, 'r) action list + ('j, 'r) action list" where
  "execute_tools e tcs acts =
     (let uniqueToolCalls = deduplicateToolCalls (stringify e) tcs;
          started = acts @ map Execute uniqueToolCalls
      in case all_results (map (executeTool e) uniqueToolCalls) of
           Inl msg \<Rightarrow> Inl (msg, started)
         | Inr results \<Rightarrow>
             Inr (started @
                  concat (map (\<lambda>(tc, r). [Save System (resultText e tc r),
                                            Emit (ToolResultEvent tc r)])
                              (zip uniqueToolCalls results))))"



definition maxTurns :: "('j, 'r) env \<Rightarrow> int" where
  "maxTurns e = (case config_maxTurns e of None \<Rightarrow> 10 | Some n \<Rightarrow> if n = 0 then 10 else n)"

text \<open>
  The multi-turn loop of \<open>execute\<close> with the check that follows it, and the \<open>catch\<close>
  of \<open>execute\<close> around both. The prompt builder only reads the store; what the model
  answers at a turn is given by \<open>llm\<close>.
\<close>

function execute_loop ::
  "('j, 'r) env \<Rightarrow> int \<Rightarrow> bool \<Rightarrow> ('j, 'r) action list \<Rightarrow> ('j, 'r) action list" where
  "execute_loop e turnCount ab acts =
     (if turnCount < maxTurns e then
        (if ab then acts @ [Emit (ErrorEvent ''Execution aborted by user'')]
         else
           (case streamLLM (parse_json e) (llm e (nat (turnCount + 1))) ab acts of
              Inl (msg, ab1, acts1) \<Rightarrow> acts1 @ [Emit (ErrorEvent msg)]
            | Inr (response, tcs, ab1, acts1) \<Rightarrow>
                let acts2 = acts1 @ [Save Assistant response] in
                if tcs \<noteq> [] then
                  (case execute_tools e tcs acts2 of
                     Inl (msg, acts3) \<Rightarrow> acts3 @ [Emit (ErrorEvent msg)]
                   | Inr acts3 \<Rightarrow> execute_loop e (turnCount + 1) ab1 acts3)
                else
                  acts2 @ [Emit DoneEvent] @
                  (if turnCount + 1 \<ge> maxTurns e
                   then [Emit (ErrorEvent ''Max turns reached'')] else [])))
      else acts @ [Emit (ErrorEvent ''Max turns reached'')])"
  by pat_completeness auto
termination
  by (relation "measure (\<lambda>(e, turnCount, ab, acts). nat (maxTurns e - turnCount))") auto

text \<open>
  \<open>execute\<close> from its \<open>try\<close> block on (\<open>init\<close> and \<open>ensureSession\<close> precede it), for the
  query left by the skill parser: the user message is saved, then the loop runs. Calls of
  \<open>abort\<close> are placed before the first turn and between the deliveries of a stream.
\<close>

definition execute :: "('j, 'r) env \<Rightarrow> string \<Rightarrow> ('j, 'r) action list" where
  "execute e finalQuery =
     execute_loop e 0 (early_abort e)
       (Save User finalQuery # (if early_abort e then [AbortCalled] else []))"

fun events :: "('j, 'r) action list \<Rightarrow> ('j, 'r) StreamEvent list" where
  "events [] = []"
| "events (Emit ev # as) = ev # events as"
| "events (a # as) = events as"

fun executions :: "('j, 'r) action list \<Rightarrow> 'j ToolCall list" where
  "executions [] = []"
| "executions (Execute tc # as) = tc # executions as"
| "executions (a # as) = executions as"

fun result_calls :: "('j, 'r) action list \<Rightarrow> 'j ToolCall list" where
  "result_calls [] = []"
| "result_calls (Emit (ToolResultEvent tc r) # as) = tc # result_calls as"
| "result_calls (a # as) = result_calls as"

fun is_terminal :: "('j, 'r) StreamEvent \<Rightarrow> bool" where
  "is_terminal DoneEvent = True"
| "is_terminal (ErrorEvent msg) = True"
| "is_terminal ev = False"

section \<open>Concrete inputs\<close>

text \<open>A message of a given role with a text content, as \<open>saveMessage\<close> builds it.\<close>

definition to_message :: "role \<times> string \<Rightarrow> Message" where
  "to_message x = \<lparr> role = fst x, content = Str (snd x) \<rparr>"

text \<open>A summarization call that throws, and one that answers.\<close>

definition failing_openai :: "bool \<Rightarrow> Message list \<Rightarrow> completion" where
  "failing_openai merge ms = Throws"

definition fixed_openai :: "bool \<Rightarrow> Message list \<Rightarrow> completion" where
  "fixed_openai merge ms = Answer (Some ''S'')"

definition short_message :: Message where
  "short_message = \<lparr> role = User, content = Str ''hi'' \<rparr>"

definition long_message :: Message where
  "long_message = \<lparr> role = User, content = Str (replicate 20001 CHR ''a'') \<rparr>"

text \<open>A store whose cache for session \<open>s\<close> holds the given messages.\<close>

definition cached :: "Message list \<Rightarrow> MemoryManager" where
  "cached ms = \<lparr> messageCache = [''s'' \<mapsto> ms], compactedMemories = Map.empty \<rparr>"

definition fourteen :: "Message list" where
  "fourteen = long_message #
     [\<lparr> role = User, content = Str ''m2'' \<rparr>, \<lparr> role = User, content = Str ''m3'' \<rparr>,
      \<lparr> role = User, content = Str ''m4'' \<rparr>, \<lparr> role = User, content = Str ''m5'' \<rparr>,
      \<lparr> role = User, content = Str ''m6'' \<rparr>, \<lparr> role = User, content = Str ''m7'' \<rparr>,
      \<lparr> role = User, content = Str ''m8'' \<rparr>, \<lparr> role = User, content = Str ''m9'' \<rparr>,
      \<lparr> role = User, content = Str ''m10'' \<rparr>, \<lparr> role = User, content = Str ''m11'' \<rparr>,
      \<lparr> role = User, content = Str ''m12'' \<rparr>, \<lparr> role = User, content = Str ''m13'' \<rparr>,
      \<lparr> role = User, content = Str ''m14'' \<rparr>]"

definition twenty_one :: "Message list" where
  "twenty_one =
     [\<lparr> role = User, content = Str ''m1'' \<rparr>, \<lparr> role = User, content = Str ''m2'' \<rparr>,
      \<lparr> role = User, content = Str ''m3'' \<rparr>, \<lparr> role = User, content = Str ''m4'' \<rparr>,
      \<lparr> role = User, content = Str ''m5'' \<rparr>, \<lparr> role = User, content = Str ''m6'' \<rparr>,
      \<lparr> role = User, content = Str ''m7'' \<rparr>, \<lparr> role = User, content = Str ''m8'' \<rparr>,
      \<lparr> role = User, content = Str ''m9'' \<rparr>, \<lparr> role = User, content = Str ''m10'' \<rparr>,
      \<lparr> role = User, content = Str ''m11'' \<rparr>, \<lparr> role = User, content = Str ''m12'' \<rparr>,
      \<lparr> role = User, content = Str ''m13'' \<rparr>, \<lparr> role = User, content = Str ''m14'' \<rparr>,
      \<lparr> role = User, content = Str ''m15'' \<rparr>, \<lparr> role = User, content = Str ''m16'' \<rparr>,
      \<lparr> role = User, content = Str ''m17'' \<rparr>, \<lparr> role = User, content = Str ''m18'' \<rparr>,
      \<lparr> role = User, content = Str ''m19'' \<rparr>, \<lparr> role = User, content = Str ''m20'' \<rparr>,
      \<lparr> role = User, content = Str ''m21'' \<rparr>]"

definition sixteen_items :: "(role \<times> string) list" where
  "sixteen_items =
     [(User, ''m1''), (User, ''m2''), (User, ''m3''), (User, ''m4''), (User, ''m5''), (User, ''m6''),
      (User, ''m7''), (User, ''m8''), (User, ''m9''), (User, ''m10''), (User, ''m11''), (User, ''m12''),
      (User, ''m13''), (User, ''m14''), (User, ''m15''), (User, ''m16'')]"

definition twenty_one_items :: "(role \<times> string) list" where
  "twenty_one_items =
     [(User, ''m1''), (User, ''m2''), (User, ''m3''), (User, ''m4''), (User, ''m5''), (User, ''m6''),
      (User, ''m7''), (User, ''m8''), (User, ''m9''), (User, ''m10''), (User, ''m11''), (User, ''m12''),
      (User, ''m13''), (User, ''m14''), (User, ''m15''), (User, ''m16''), (User, ''m17''), (User, ''m18''),
      (User, ''m19''), (User, ''m20''), (User, ''m21'')]"

text \<open>A tool call, and collaborators of a run: tools that return, a key by name.\<close>

definition tool_a :: "unit ToolCall" where
  "tool_a = \<lparr> name = ''a'', parameters = NoParams \<rparr>"

definition by_name :: "unit ToolCall \<Rightarrow> string" where
  "by_name tc = name tc"

definition returns_ok :: "unit ToolCall \<Rightarrow> string + string" where
  "returns_ok tc = Inr ''ok''"

definition show_result :: "string \<Rightarrow> string" where
  "show_result r = r"

definition scripted :: "(nat \<Rightarrow> delivery list) \<Rightarrow> int option \<Rightarrow> (unit, string) env" where
  "scripted script turns =
     \<lparr> parse_json = no_json, stringify = by_name, stringify_result = show_result,
       executeTool = returns_ok, llm = script, config_maxTurns = turns, early_abort = False \<rparr>"

text \<open>Model streams: a plain answer; an answer cut by \<open>abort\<close>; a tool block cut by
  \<open>abort\<close>; a tool block followed by text in the same chunk.\<close>

definition says_hello :: "nat \<Rightarrow> delivery list" where
  "says_hello turn = [Chunk ''Hello'']"

definition cancelled_text :: "nat \<Rightarrow> delivery list" where
  "cancelled_text turn = [Chunk ''Hello, this is a long reply'', AbortCall, Chunk ''more'']"

definition cancelled_tool :: "nat \<Rightarrow> delivery list" where
  "cancelled_tool turn = [Chunk ''<tool>name: a</tool>'', AbortCall, Chunk ''more'']"

definition tool_then_text :: "delivery list" where
  "tool_then_text = [Chunk ''<tool>name: a</tool>Hello world!!'']"









text \<open>A block content without a \<open>name:\<close> line, in which \<open>name:\<close> stands inside a line.\<close>

definition named_inside_line :: string where
  "named_inside_line = ''note: the username: bob''"

text \<open>A parser inside a tool block that has no name line so far, the fragments that
  follow, and what they hold after the closing tag.\<close>

definition inside_nameless :: parser where
  "inside_nameless = \<lparr> buffer = [], inToolBlock = True, toolBuffer = ''nam: '' \<rparr>"

definition closing_fragments :: "string list" where
  "closing_fragments = [''x</to'', ''ol>hello <tool>name: b</tool> bye bye'']"

definition rest_after :: string where
  "rest_after = ''hello <tool>name: b</tool> bye bye''"

section \<open>Auxiliary notions of the proofs\<close>

text \<open>\<open>pat\<close> occurs in \<open>s\<close> at index \<open>j\<close>.\<close>

definition occ :: "string \<Rightarrow> string \<Rightarrow> nat \<Rightarrow> bool" where
  "occ s pat j = startsWith (drop j s) pat"

text \<open>The loop of \<open>addChunk\<close> started with empty locals, and its result put after a
  text and tool calls already collected.\<close>

definition from_empty ::
  "(string \<Rightarrow> 'j option) \<Rightarrow> parser \<Rightarrow> parser \<times> string \<times> 'j ToolCall list" where
  "from_empty js p = addChunk_loop js p [] []"

definition prepend ::
  "string \<Rightarrow> 'j ToolCall list \<Rightarrow> parser \<times> string \<times> 'j ToolCall list
     \<Rightarrow> parser \<times> string \<times> 'j ToolCall list" where
  "prepend t c r = (case r of (p', t', c') \<Rightarrow> (p', t @ t', c @ c'))"

definition block_calls :: "(string \<Rightarrow> 'j option) \<Rightarrow> string \<Rightarrow> 'j ToolCall list" where
  "block_calls js body =
     (case parseToolContent js body of Some toolCall \<Rightarrow> [toolCall] | None \<Rightarrow> [])"

text \<open>\<open>this.buffer += b\<close>, and the loop run on the state a first run has reached.\<close>

definition more :: "parser \<Rightarrow> string \<Rightarrow> parser" where
  "more p b = p\<lparr>buffer := buffer p @ b\<rparr>"

definition after ::
  "(string \<Rightarrow> 'j option) \<Rightarrow> string \<Rightarrow> parser \<times> string \<times> 'j ToolCall list
     \<Rightarrow> parser \<times> string \<times> 'j ToolCall list" where
  "after js b r = (case r of (p1, t1, c1) \<Rightarrow> prepend t1 c1 (from_empty js (more p1 b)))"

text \<open>\<open>addChunk\<close> before the empty list of tool calls is turned into \<open>null\<close>.\<close>

definition addChunk_list ::
  "(string \<Rightarrow> 'j option) \<Rightarrow> parser \<Rightarrow> string \<Rightarrow> parser \<times> string \<times> 'j ToolCall list" where
  "addChunk_list js p fragment = from_empty js (more p fragment)"

section \<open>Occurrences of a pattern\<close>

lemma startsWith_length: "startsWith s pat \<Longrightarrow> length pat \<le> length s"
proof -
  assume "startsWith s pat"
  then have "length (take (length pat) s) = length pat" by (simp add: startsWith_def)
  then show ?thesis by simp
qed

lemma indexOf_None_iff: "indexOf s pat = None \<longleftrightarrow> (\<forall>j. \<not> occ s pat j)"
proof (induction s)
  case Nil
  show ?case by (auto simp: occ_def startsWith_def)
next
  case (Cons c cs)
  show ?case
  proof (cases "startsWith (c # cs) pat")
    case True
    then have "occ (c # cs) pat 0" by (simp add: occ_def)
    with True show ?thesis by auto
  next
    case False
    have "(\<forall>j. \<not> occ (c # cs) pat j) \<longleftrightarrow> (\<forall>j. \<not> occ cs pat j)"
    proof
      assume a: "\<forall>j. \<not> occ (c # cs) pat j"
      show "\<forall>j. \<not> occ cs pat j"
      proof
        fix j from a have "\<not> occ (c # cs) pat (Suc j)" by blast
        then show "\<not> occ cs pat j" by (simp add: occ_def)
      qed
    next
      assume a: "\<forall>j. \<not> occ cs pat j"
      show "\<forall>j. \<not> occ (c # cs) pat j"
      proof
        fix j show "\<not> occ (c # cs) pat j"
          using a False by (cases j) (auto simp: occ_def)
      qed
    qed
    with False Cons show ?thesis by simp
  qed
qed

lemma indexOf_Some_iff:
  "indexOf s pat = Some i \<longleftrightarrow> occ s pat i \<and> (\<forall>j<i. \<not> occ s pat j)"
proof (induction s arbitrary: i)
  case Nil
  show ?case by (auto simp: occ_def startsWith_def)
next
  case (Cons c cs)
  show ?case
  proof (cases "startsWith (c # cs) pat")
    case True
    then have o: "occ (c # cs) pat 0" by (simp add: occ_def)
    show ?thesis
    proof
      assume "indexOf (c # cs) pat = Some i"
      with True have "i = 0" by simp
      with o show "occ (c # cs) pat i \<and> (\<forall>j<i. \<not> occ (c # cs) pat j)" by simp
    next
      assume "occ (c # cs) pat i \<and> (\<forall>j<i. \<not> occ (c # cs) pat j)"
      with o have "i = 0" by (cases i) auto
      with True show "indexOf (c # cs) pat = Some i" by simp
    qed
  next
    case False
    then have no: "\<not> occ (c # cs) pat 0" by (simp add: occ_def)
    show ?thesis
    proof
      assume "indexOf (c # cs) pat = Some i"
      with False obtain k where k: "indexOf cs pat = Some k" "i = Suc k" by auto
      with Cons have "occ cs pat k" "\<forall>j<k. \<not> occ cs pat j" by auto
      then have "occ (c # cs) pat (Suc k)" and "\<forall>j<Suc k. \<not> occ (c # cs) pat j"
        using no by (auto simp: occ_def less_Suc_eq_0_disj)
      with k show "occ (c # cs) pat i \<and> (\<forall>j<i. \<not> occ (c # cs) pat j)" by simp
    next
      assume a: "occ (c # cs) pat i \<and> (\<forall>j<i. \<not> occ (c # cs) pat j)"
      with no obtain k where k: "i = Suc k" by (cases i) auto
      with a have "occ cs pat k" by (simp add: occ_def)
      moreover have "\<forall>j<k. \<not> occ cs pat j"
      proof (intro allI impI)
        fix j assume "j < k"
        with a k have "\<not> occ (c # cs) pat (Suc j)" by auto
        then show "\<not> occ cs pat j" by (simp add: occ_def)
      qed
      ultimately have "indexOf cs pat = Some k" using Cons by blast
      with False k show "indexOf (c # cs) pat = Some i" by simp
    qed
  qed
qed

lemma occ_append_inside:
  "j + length pat \<le> length s \<Longrightarrow> occ (s @ t) pat j \<longleftrightarrow> occ s pat j"
  by (simp add: occ_def startsWith_def)

lemma occ_bound: "occ s pat j \<Longrightarrow> pat \<noteq> [] \<Longrightarrow> j + length pat \<le> length s"
proof -
  assume "occ s pat j" and ne: "pat \<noteq> []"
  then have "startsWith (drop j s) pat" by (simp add: occ_def)
  then have "length pat \<le> length (drop j s)" by (rule startsWith_length)
  then show ?thesis using ne by (cases "j \<le> length s") auto
qed

lemma occ_drop: "occ (drop n s) pat j \<longleftrightarrow> occ s pat (n + j)"
  by (simp add: occ_def add.commute)

lemma indexOf_append_Some:
  assumes "indexOf s pat = Some i" "pat \<noteq> []"
  shows "indexOf (s @ t) pat = Some i"
proof -
  from assms have o: "occ s pat i" and n: "\<forall>j<i. \<not> occ s pat j"
    by (simp_all add: indexOf_Some_iff)
  from o assms(2) have b: "i + length pat \<le> length s" by (rule occ_bound)
  have "occ (s @ t) pat i" using o b by (simp add: occ_append_inside)
  moreover have "\<forall>j<i. \<not> occ (s @ t) pat j"
  proof (intro allI impI)
    fix j assume "j < i"
    with b have "j + length pat \<le> length s" by simp
    with n \<open>j < i\<close> show "\<not> occ (s @ t) pat j" by (simp add: occ_append_inside)
  qed
  ultimately show ?thesis by (simp add: indexOf_Some_iff)
qed

lemma indexOf_Some_bound:
  "indexOf s pat = Some i \<Longrightarrow> pat \<noteq> [] \<Longrightarrow> i + length pat \<le> length s"
  by (simp add: indexOf_Some_iff occ_bound)

lemma indexOf_drop_None: "indexOf s pat = None \<Longrightarrow> indexOf (drop n s) pat = None"
  by (simp add: indexOf_None_iff occ_drop)

text \<open>No occurrence in \<open>u @ v\<close>, and \<open>v\<close> holds at least all but one character of the
  pattern: an occurrence in \<open>u @ v @ b\<close> starts in \<open>v @ b\<close>.\<close>

lemma occ_past_prefix:
  assumes "indexOf (u @ v) pat = None" "length pat \<le> Suc (length v)"
  shows "occ (u @ v @ b) pat j \<longleftrightarrow> length u \<le> j \<and> occ (v @ b) pat (j - length u)"
proof (cases "length u \<le> j")
  case True
  then show ?thesis by (simp add: occ_def)
next
  case False
  then have "j + length pat \<le> length (u @ v)" using assms(2) by simp
  then have "occ ((u @ v) @ b) pat j \<longleftrightarrow> occ (u @ v) pat j" by (rule occ_append_inside)
  with assms(1) False show ?thesis by (simp add: indexOf_None_iff)
qed

lemma indexOf_past_prefix:
  assumes "indexOf (u @ v) pat = None" "length pat \<le> Suc (length v)"
  shows "indexOf (u @ v @ b) pat = map_option (\<lambda>i. length u + i) (indexOf (v @ b) pat)"
proof (cases "indexOf (v @ b) pat")
  case None
  then have "\<forall>j. \<not> occ (u @ v @ b) pat j"
    using occ_past_prefix [OF assms] by (simp add: indexOf_None_iff)
  then have "indexOf (u @ v @ b) pat = None" by (simp add: indexOf_None_iff)
  then show ?thesis using None by simp
next
  case (Some i)
  then have o: "occ (v @ b) pat i" and n: "\<forall>j<i. \<not> occ (v @ b) pat j"
    by (simp_all add: indexOf_Some_iff)
  have "occ (u @ v @ b) pat (length u + i)"
    using o occ_past_prefix [OF assms, of b "length u + i"] by simp
  moreover have "\<forall>j<length u + i. \<not> occ (u @ v @ b) pat j"
  proof (intro allI impI)
    fix j assume j: "j < length u + i"
    show "\<not> occ (u @ v @ b) pat j"
    proof (cases "length u \<le> j")
      case True
      with j have "j - length u < i" by simp
      with n have "\<not> occ (v @ b) pat (j - length u)" by simp
      then show ?thesis using occ_past_prefix [OF assms, of b j] by simp
    next
      case False
      then show ?thesis using occ_past_prefix [OF assms, of b j] by simp
    qed
  qed
  ultimately have "indexOf (u @ v @ b) pat = Some (length u + i)"
    by (simp add: indexOf_Some_iff)
  then show ?thesis using Some by simp
qed

lemma occ_straddle:
  assumes "occ (s @ pat @ r) pat j" and "j < length s" and "length s < j + length pat"
  shows "pat ! (length s - j) = pat ! 0"
proof -
  let ?d = "length s - j"
  have d: "?d < length pat" using assms(2,3) by simp
  have "take (length pat) (drop j (s @ pat @ r)) = pat"
    using assms(1) by (simp add: occ_def startsWith_def)
  then have "pat ! ?d = take (length pat) (drop j (s @ pat @ r)) ! ?d" by simp
  also have "\<dots> = drop j (s @ pat @ r) ! ?d" using d by (rule nth_take)
  also have "\<dots> = (s @ pat @ r) ! (j + ?d)"
  proof (rule nth_drop)
    show "j \<le> length (s @ pat @ r)" using assms(2) by simp
  qed
  also have "j + ?d = length s" using assms(2) by simp
  also have "(s @ pat @ r) ! length s = pat ! 0" using d by (cases pat) (simp_all add: nth_append)
  finally show ?thesis .
qed

text \<open>The closing tag does not overlap itself: after a text without it, it is first found
  where it is appended.\<close>

lemma first_closing_tag:
  assumes "indexOf s ''</tool>'' = None"
  shows "indexOf (s @ ''</tool>'' @ r) ''</tool>'' = Some (length s)"
proof -
  let ?pat = "''</tool>''"
  have here: "occ (s @ ?pat @ r) ?pat (length s)"
    by (simp add: occ_def startsWith_def)
  have before: "\<forall>j<length s. \<not> occ (s @ ?pat @ r) ?pat j"
  proof (intro allI impI notI)
    fix j assume j: "j < length s" and o: "occ (s @ ?pat @ r) ?pat j"
    show False
    proof (cases "j + length ?pat \<le> length s")
      case True
      then have "occ s ?pat j" using o occ_append_inside [of j ?pat s "?pat @ r"] by simp
      with assms show False by (simp add: indexOf_None_iff)
    next
      case False
      then have lt: "length s < j + length ?pat" by simp
      have eq: "?pat ! (length s - j) = ?pat ! 0" using o j lt by (rule occ_straddle)
      have "length s - j = 1 \<or> length s - j = 2 \<or> length s - j = 3 \<or> length s - j = 4
            \<or> length s - j = 5 \<or> length s - j = 6"
        using j lt by auto
      then show False using eq by (elim disjE) simp_all
    qed
  qed
  from here before show ?thesis by (simp add: indexOf_Some_iff)
qed

section \<open>The loop of addChunk\<close>

declare addChunk_loop.simps [simp del]

lemma loop_empty: "buffer p = [] \<Longrightarrow> addChunk_loop js p t c = (p, t, c)"
  by (subst addChunk_loop.simps) simp

lemma loop_out_none:
  "buffer p \<noteq> [] \<Longrightarrow> \<not> inToolBlock p \<Longrightarrow> indexOf (buffer p) ''<tool>'' = None \<Longrightarrow>
   addChunk_loop js p t c =
     (if length (buffer p) > 6
      then (p\<lparr>buffer := slice_back (buffer p) 6\<rparr>, t @ slice_front (buffer p) 6, c)
      else (p, t, c))"
  by (subst addChunk_loop.simps) simp

lemma loop_out_some:
  "buffer p \<noteq> [] \<Longrightarrow> \<not> inToolBlock p \<Longrightarrow> indexOf (buffer p) ''<tool>'' = Some i \<Longrightarrow>
   addChunk_loop js p t c =
     addChunk_loop js
       (p\<lparr>buffer := drop (i + 6) (buffer p), inToolBlock := True, toolBuffer := []\<rparr>)
       (t @ take i (buffer p)) c"
  by (subst addChunk_loop.simps) simp

lemma loop_in_none:
  "buffer p \<noteq> [] \<Longrightarrow> inToolBlock p \<Longrightarrow>
   indexOf (toolBuffer p @ buffer p) ''</tool>'' = None \<Longrightarrow>
   addChunk_loop js p t c = (p\<lparr>toolBuffer := toolBuffer p @ buffer p, buffer := []\<rparr>, t, c)"
  by (subst addChunk_loop.simps) simp

lemma loop_in_some:
  "buffer p \<noteq> [] \<Longrightarrow> inToolBlock p \<Longrightarrow>
   indexOf (toolBuffer p @ buffer p) ''</tool>'' = Some e \<Longrightarrow>
   addChunk_loop js p t c =
     addChunk_loop js
       (p\<lparr>toolBuffer := [], buffer := drop (e + 7) (toolBuffer p @ buffer p),
           inToolBlock := False\<rparr>)
       t
       (case parseToolContent js (take e (toolBuffer p @ buffer p)) of
          Some toolCall \<Rightarrow> c @ [toolCall]
        | None \<Rightarrow> c)"
  by (subst addChunk_loop.simps) (simp add: Let_def)

lemma prepend_prepend [simp]: "prepend t c (prepend t' c' r) = prepend (t @ t') (c @ c') r"
  by (simp add: prepend_def split: prod.splits)

lemma prepend_Nil [simp]: "prepend [] [] r = r"
  by (simp add: prepend_def split: prod.splits)

lemma loop_acc_all:
  "\<forall>t c. addChunk_loop js p t c = prepend t c (from_empty js p)"
proof (rule addChunk_loop.induct
    [of "\<lambda>js p _ _. \<forall>t c. addChunk_loop js p t c = prepend t c (from_empty js p)"
        js p "[]" "[]"], intro allI)
  fix js :: "string \<Rightarrow> 'j option" and p :: parser and t0 :: string
    and c0 :: "'j ToolCall list" and t :: string and c :: "'j ToolCall list"
  assume IH1: "\<And>x2. buffer p \<noteq> [] \<Longrightarrow> \<not> inToolBlock p \<Longrightarrow>
      indexOf (buffer p) ''<tool>'' = Some x2 \<Longrightarrow>
      \<forall>t c. addChunk_loop js
         (p\<lparr>buffer := drop (x2 + 6) (buffer p), inToolBlock := True, toolBuffer := []\<rparr>) t c =
        prepend t c (from_empty js
         (p\<lparr>buffer := drop (x2 + 6) (buffer p), inToolBlock := True, toolBuffer := []\<rparr>))"
  assume IH2: "\<And>x x2. buffer p \<noteq> [] \<Longrightarrow> \<not> \<not> inToolBlock p \<Longrightarrow> x = toolBuffer p @ buffer p \<Longrightarrow>
      indexOf x ''</tool>'' = Some x2 \<Longrightarrow>
      \<forall>t c. addChunk_loop js
         (p\<lparr>toolBuffer := [], buffer := drop (x2 + 7) x, inToolBlock := False\<rparr>) t c =
        prepend t c (from_empty js
         (p\<lparr>toolBuffer := [], buffer := drop (x2 + 7) x, inToolBlock := False\<rparr>))"
  show "addChunk_loop js p t c = prepend t c (from_empty js p)"
  proof (cases "buffer p = []")
    case True
    then show ?thesis by (simp add: from_empty_def loop_empty prepend_def)
  next
    case ne: False
    show ?thesis
    proof (cases "inToolBlock p")
      case out: False
      show ?thesis
      proof (cases "indexOf (buffer p) ''<tool>''")
        case None
        with ne out show ?thesis by (simp add: from_empty_def loop_out_none prepend_def)
      next
        case (Some i)
        let ?p1 = "p\<lparr>buffer := drop (i + 6) (buffer p), inToolBlock := True, toolBuffer := []\<rparr>"
        from IH1 [OF ne out Some]
        have ih: "\<And>t c. addChunk_loop js ?p1 t c = prepend t c (from_empty js ?p1)"
          by blast
        have "addChunk_loop js p t c = prepend (t @ take i (buffer p)) c (from_empty js ?p1)"
          by (simp only: loop_out_some [OF ne out Some] ih)
        moreover have "from_empty js p = prepend (take i (buffer p)) [] (from_empty js ?p1)"
          unfolding from_empty_def [of js p]
          by (simp only: loop_out_some [OF ne out Some] ih append_Nil)
        ultimately show ?thesis by simp
      qed
    next
      case inn: True
      show ?thesis
      proof (cases "indexOf (toolBuffer p @ buffer p) ''</tool>''")
        case None
        with ne inn show ?thesis by (simp add: from_empty_def loop_in_none prepend_def)
      next
        case (Some e)
        let ?p1 = "p\<lparr>toolBuffer := [], buffer := drop (e + 7) (toolBuffer p @ buffer p),
                      inToolBlock := False\<rparr>"
        let ?new = "case parseToolContent js (take e (toolBuffer p @ buffer p)) of
                      Some toolCall \<Rightarrow> [toolCall] | None \<Rightarrow> []"
        from inn have "\<not> \<not> inToolBlock p" by simp
        from IH2 [OF ne this refl Some]
        have ih: "\<And>t c. addChunk_loop js ?p1 t c = prepend t c (from_empty js ?p1)"
          by blast
        have "addChunk_loop js p t c = prepend t (c @ ?new) (from_empty js ?p1)"
          by (cases "parseToolContent js (take e (toolBuffer p @ buffer p))")
             (simp_all only: loop_in_some [OF ne inn Some] ih option.case append_Nil2)
        moreover have "from_empty js p = prepend [] ?new (from_empty js ?p1)"
          unfolding from_empty_def [of js p]
          by (cases "parseToolContent js (take e (toolBuffer p @ buffer p))")
             (simp_all only: loop_in_some [OF ne inn Some] ih option.case append_Nil)
        ultimately show ?thesis by simp
      qed
    qed
  qed
qed

lemma loop_acc: "addChunk_loop js p t c = prepend t c (from_empty js p)"
  using loop_acc_all by blast

lemma parser_induct [case_names empty out_none out_some in_none in_some]:
  fixes P :: "parser \<Rightarrow> bool"
  assumes "\<And>p. buffer p = [] \<Longrightarrow> P p"
    and "\<And>p. buffer p \<noteq> [] \<Longrightarrow> \<not> inToolBlock p \<Longrightarrow>
           indexOf (buffer p) ''<tool>'' = None \<Longrightarrow> P p"
    and "\<And>p i. buffer p \<noteq> [] \<Longrightarrow> \<not> inToolBlock p \<Longrightarrow>
           indexOf (buffer p) ''<tool>'' = Some i \<Longrightarrow>
           P (p\<lparr>buffer := drop (i + 6) (buffer p), inToolBlock := True, toolBuffer := []\<rparr>) \<Longrightarrow>
           P p"
    and "\<And>p. buffer p \<noteq> [] \<Longrightarrow> inToolBlock p \<Longrightarrow>
           indexOf (toolBuffer p @ buffer p) ''</tool>'' = None \<Longrightarrow> P p"
    and "\<And>p e. buffer p \<noteq> [] \<Longrightarrow> inToolBlock p \<Longrightarrow>
           indexOf (toolBuffer p @ buffer p) ''</tool>'' = Some e \<Longrightarrow>
           P (p\<lparr>toolBuffer := [], buffer := drop (e + 7) (toolBuffer p @ buffer p),
                 inToolBlock := False\<rparr>) \<Longrightarrow>
           P p"
  shows "P p"
proof (rule addChunk_loop.induct [of "\<lambda>_ p _ _. P p" "\<lambda>_. None :: unit option" p "[]" "[]"])
  fix p :: parser
  assume IH1: "\<And>x2. buffer p \<noteq> [] \<Longrightarrow> \<not> inToolBlock p \<Longrightarrow>
      indexOf (buffer p) ''<tool>'' = Some x2 \<Longrightarrow>
      P (p\<lparr>buffer := drop (x2 + 6) (buffer p), inToolBlock := True, toolBuffer := []\<rparr>)"
  assume IH2: "\<And>x x2. buffer p \<noteq> [] \<Longrightarrow> \<not> \<not> inToolBlock p \<Longrightarrow> x = toolBuffer p @ buffer p \<Longrightarrow>
      indexOf x ''</tool>'' = Some x2 \<Longrightarrow>
      P (p\<lparr>toolBuffer := [], buffer := drop (x2 + 7) x, inToolBlock := False\<rparr>)"
  show "P p"
  proof (cases "buffer p = []")
    case True
    then show ?thesis by (rule assms(1))
  next
    case ne: False
    show ?thesis
    proof (cases "inToolBlock p")
      case out: False
      show ?thesis
      proof (cases "indexOf (buffer p) ''<tool>''")
        case None
        with ne out show ?thesis by (rule assms(2))
      next
        case (Some i)
        from ne out Some IH1 [OF ne out Some] show ?thesis by (rule assms(3))
      qed
    next
      case inn: True
      show ?thesis
      proof (cases "indexOf (toolBuffer p @ buffer p) ''</tool>''")
        case None
        with ne inn show ?thesis by (rule assms(4))
      next
        case (Some e)
        from inn have "\<not> \<not> inToolBlock p" by simp
        from ne inn Some IH2 [OF ne this refl Some] show ?thesis by (rule assms(5))
      qed
    qed
  qed
qed

lemma fe_empty: "buffer p = [] \<Longrightarrow> from_empty js p = (p, [], [])"
  by (simp add: from_empty_def loop_empty)

lemma fe_out_none:
  "buffer p \<noteq> [] \<Longrightarrow> \<not> inToolBlock p \<Longrightarrow> indexOf (buffer p) ''<tool>'' = None \<Longrightarrow>
   from_empty js p =
     (if length (buffer p) > 6
      then (p\<lparr>buffer := slice_back (buffer p) 6\<rparr>, slice_front (buffer p) 6, [])
      else (p, [], []))"
  by (simp add: from_empty_def loop_out_none)

lemma fe_out_some:
  assumes "buffer p \<noteq> []" "\<not> inToolBlock p" "indexOf (buffer p) ''<tool>'' = Some i"
  shows "from_empty js p =
     prepend (take i (buffer p)) []
       (from_empty js
          (p\<lparr>buffer := drop (i + 6) (buffer p), inToolBlock := True, toolBuffer := []\<rparr>))"
proof -
  have "from_empty js p =
      addChunk_loop js
       (p\<lparr>buffer := drop (i + 6) (buffer p), inToolBlock := True, toolBuffer := []\<rparr>)
       ([] @ take i (buffer p)) []"
    unfolding from_empty_def [of js p] by (rule loop_out_some [OF assms])
  then show ?thesis by (simp add: loop_acc)
qed

lemma fe_in_none:
  "buffer p \<noteq> [] \<Longrightarrow> inToolBlock p \<Longrightarrow>
   indexOf (toolBuffer p @ buffer p) ''</tool>'' = None \<Longrightarrow>
   from_empty js p = (p\<lparr>toolBuffer := toolBuffer p @ buffer p, buffer := []\<rparr>, [], [])"
  by (simp add: from_empty_def loop_in_none)

lemma fe_in_some:
  assumes "buffer p \<noteq> []" "inToolBlock p"
    "indexOf (toolBuffer p @ buffer p) ''</tool>'' = Some e"
  shows "from_empty js p =
     prepend [] (block_calls js (take e (toolBuffer p @ buffer p)))
       (from_empty js
          (p\<lparr>toolBuffer := [], buffer := drop (e + 7) (toolBuffer p @ buffer p),
              inToolBlock := False\<rparr>))"
proof -
  have "from_empty js p =
      addChunk_loop js
       (p\<lparr>toolBuffer := [], buffer := drop (e + 7) (toolBuffer p @ buffer p),
           inToolBlock := False\<rparr>)
       []
       (case parseToolContent js (take e (toolBuffer p @ buffer p)) of
          Some toolCall \<Rightarrow> [] @ [toolCall]
        | None \<Rightarrow> [])"
    unfolding from_empty_def [of js p] by (rule loop_in_some [OF assms])
  then show ?thesis
    by (cases "parseToolContent js (take e (toolBuffer p @ buffer p))")
       (simp_all only: loop_acc [of js _ "[]"] block_calls_def option.case append_Nil)
qed

text \<open>Text without an opening tag that ends in six withheld characters can be emitted
  at once: what follows is scanned from the withheld characters on.\<close>

lemma fe_skip:
  assumes out: "\<not> inToolBlock p" and no: "indexOf (u @ v) ''<tool>'' = None"
    and v: "length v = 6"
  shows "from_empty js (p\<lparr>buffer := u @ v @ b\<rparr>) =
         prepend u [] (from_empty js (p\<lparr>buffer := v @ b\<rparr>))"
proof -
  have len: "length ''<tool>'' \<le> Suc (length v)" using v by simp
  note ix = indexOf_past_prefix [OF no len, of b]
  have ne1: "buffer (p\<lparr>buffer := u @ v @ b\<rparr>) \<noteq> []" using v by auto
  have ne2: "buffer (p\<lparr>buffer := v @ b\<rparr>) \<noteq> []" using v by auto
  have o1: "\<not> inToolBlock (p\<lparr>buffer := u @ v @ b\<rparr>)" using out by simp
  have o2: "\<not> inToolBlock (p\<lparr>buffer := v @ b\<rparr>)" using out by simp
  show ?thesis
  proof (cases "indexOf (v @ b) ''<tool>''")
    case None
    then have n1: "indexOf (buffer (p\<lparr>buffer := u @ v @ b\<rparr>)) ''<tool>'' = None"
      using ix by simp
    from None have n2: "indexOf (buffer (p\<lparr>buffer := v @ b\<rparr>)) ''<tool>'' = None" by simp
    show ?thesis
      unfolding fe_out_none [OF ne1 o1 n1] fe_out_none [OF ne2 o2 n2]
      using v by (auto simp: prepend_def slice_back_def slice_front_def)
  next
    case (Some i)
    then have s1: "indexOf (buffer (p\<lparr>buffer := u @ v @ b\<rparr>)) ''<tool>'' = Some (length u + i)"
      using ix by simp
    from Some have s2: "indexOf (buffer (p\<lparr>buffer := v @ b\<rparr>)) ''<tool>'' = Some i" by simp
    show ?thesis
      unfolding fe_out_some [OF ne1 o1 s1] fe_out_some [OF ne2 o2 s2]
      by (simp add: add.assoc)
  qed
qed

lemma after_prepend [simp]: "after js b (prepend t c r) = prepend t c (after js b r)"
  by (simp add: after_def prepend_def split: prod.splits)

lemma after_triple [simp]:
  "after js b (p1, t1, c1) = prepend t1 c1 (from_empty js (more p1 b))"
  by (simp add: after_def)

text \<open>Scanning \<open>buffer @ b\<close> is scanning \<open>buffer\<close> and then, from the state reached,
  what is left with \<open>b\<close> appended.\<close>

lemma fe_more: "from_empty js (more p b) = after js b (from_empty js p)"
proof (induction p rule: parser_induct)
  case (empty p)
  then show ?case by (simp add: fe_empty)
next
  case (out_none p)
  show ?case
  proof (cases "length (buffer p) > 6")
    case False
    with out_none show ?thesis by (simp add: fe_out_none)
  next
    case True
    define u where "u = slice_front (buffer p) 6"
    define v where "v = slice_back (buffer p) 6"
    have uv: "buffer p = u @ v" by (simp add: u_def v_def slice_front_def slice_back_def)
    have lv: "length v = 6" using True by (simp add: v_def slice_back_def)
    have no: "indexOf (u @ v) ''<tool>'' = None" using out_none(3) uv by simp
    have "from_empty js (more p b) = from_empty js (p\<lparr>buffer := u @ v @ b\<rparr>)"
      by (simp add: more_def uv)
    also have "\<dots> = prepend u [] (from_empty js (p\<lparr>buffer := v @ b\<rparr>))"
      by (rule fe_skip [OF out_none(2) no lv])
    also have "\<dots> = after js b (from_empty js p)"
      using out_none True by (simp add: fe_out_none u_def v_def more_def)
    finally show ?thesis .
  qed
next
  case (out_some p i)
  let ?p1 = "p\<lparr>buffer := drop (i + 6) (buffer p), inToolBlock := True, toolBuffer := []\<rparr>"
  have b: "i + 6 \<le> length (buffer p)"
    using indexOf_Some_bound [OF out_some(3)] by simp
  have ne: "buffer (more p b) \<noteq> []" using out_some(1) by (simp add: more_def)
  have out: "\<not> inToolBlock (more p b)" using out_some(2) by (simp add: more_def)
  have ix: "indexOf (buffer (more p b)) ''<tool>'' = Some i"
    using indexOf_append_Some [OF out_some(3)] by (simp add: more_def)
  have eq: "more p b\<lparr>buffer := drop (i + 6) (buffer (more p b)), inToolBlock := True,
              toolBuffer := []\<rparr> = more ?p1 b"
    using b by (simp add: more_def)
  have tk: "take i (buffer (more p b)) = take i (buffer p)"
    using b by (simp add: more_def)
  show ?case
    unfolding fe_out_some [OF ne out ix] fe_out_some [OF out_some(1,2,3)] eq tk out_some.IH
    by simp
next
  case (in_none p)
  show ?case
  proof (cases "b = []")
    case True
    with in_none show ?thesis by (simp add: fe_in_none fe_empty more_def)
  next
    case False
    let ?q = "p\<lparr>toolBuffer := toolBuffer p @ buffer p, buffer := []\<rparr>"
    have ne1: "buffer (more p b) \<noteq> []" using False by (simp add: more_def)
    have ne2: "buffer (more ?q b) \<noteq> []" using False by (simp add: more_def)
    have i1: "inToolBlock (more p b)" using in_none(2) by (simp add: more_def)
    have i2: "inToolBlock (more ?q b)" using in_none(2) by (simp add: more_def)
    have same: "toolBuffer (more ?q b) @ buffer (more ?q b)
                = toolBuffer (more p b) @ buffer (more p b)"
      by (simp add: more_def)
    have "from_empty js (more p b) = from_empty js (more ?q b)"
    proof (cases "indexOf (toolBuffer (more p b) @ buffer (more p b)) ''</tool>''")
      case None
      from None same have n2: "indexOf (toolBuffer (more ?q b) @ buffer (more ?q b)) ''</tool>'' = None"
        by simp
      show ?thesis
        unfolding fe_in_none [OF ne1 i1 None] fe_in_none [OF ne2 i2 n2]
        by (simp add: more_def)
    next
      case (Some e)
      from Some same have s2: "indexOf (toolBuffer (more ?q b) @ buffer (more ?q b)) ''</tool>'' = Some e"
        by simp
      show ?thesis
        unfolding fe_in_some [OF ne1 i1 Some] fe_in_some [OF ne2 i2 s2]
        by (simp add: more_def)
    qed
    then show ?thesis using in_none by (simp add: fe_in_none)
  qed
next
  case (in_some p e)
  let ?tb = "toolBuffer p @ buffer p"
  let ?p1 = "p\<lparr>toolBuffer := [], buffer := drop (e + 7) ?tb, inToolBlock := False\<rparr>"
  have b: "e + 7 \<le> length ?tb"
    using indexOf_Some_bound [OF in_some(3)] by simp
  have ne: "buffer (more p b) \<noteq> []" using in_some(1) by (simp add: more_def)
  have inn: "inToolBlock (more p b)" using in_some(2) by (simp add: more_def)
  have tb: "toolBuffer (more p b) @ buffer (more p b) = ?tb @ b" by (simp add: more_def)
  have ix: "indexOf (toolBuffer (more p b) @ buffer (more p b)) ''</tool>'' = Some e"
    unfolding tb using indexOf_append_Some [OF in_some(3)] by simp
  have eq: "more p b\<lparr>toolBuffer := [],
              buffer := drop (e + 7) (toolBuffer (more p b) @ buffer (more p b)),
              inToolBlock := False\<rparr> = more ?p1 b"
    unfolding tb using b by (simp add: more_def)
  have tk: "take e (toolBuffer (more p b) @ buffer (more p b)) = take e ?tb"
    unfolding tb using b by simp
  show ?case
    unfolding fe_in_some [OF ne inn ix] fe_in_some [OF in_some(1,2,3)] eq tk in_some.IH
    by simp
qed

lemma fe_settled:
  assumes "from_empty js p = (p1, t1, c1)"
  shows "from_empty js p1 = (p1, [], [])"
proof -
  have "more p [] = p" by (simp add: more_def)
  then have "from_empty js p = after js [] (from_empty js p)"
    using fe_more [of js p "[]"] by simp
  then have "(p1, t1, c1) = prepend t1 c1 (from_empty js (more p1 []))"
    using assms by simp
  moreover have "more p1 [] = p1" by (simp add: more_def)
  ultimately show ?thesis by (cases "from_empty js p1") (simp add: prepend_def)
qed

section \<open>Fragments\<close>

lemma addChunk_list:
  "addChunk js p fragment =
     (case addChunk_list js p fragment of (p1, t, c) \<Rightarrow> (p1, t, if c = [] then None else Some c))"
  by (simp add: addChunk_def addChunk_list_def from_empty_def more_def)

lemma feed_Cons:
  "feed js p (fragment # fragments) =
     (case addChunk_list js p fragment of
        (p1, t, c) \<Rightarrow> prepend t c (feed js p1 fragments))"
  by (simp add: addChunk_list calls_of_def prepend_def split: prod.splits)

lemma addChunk_list_append:
  "addChunk_list js p (a @ b) =
     (case addChunk_list js p a of
        (p1, t, c) \<Rightarrow> prepend t c (addChunk_list js p1 b))"
proof -
  have "more p (a @ b) = more (more p a) b" by (simp add: more_def)
  then show ?thesis
    by (simp add: addChunk_list_def fe_more [of js "more p a" b] after_def)
qed

lemma feed_concat:
  assumes "from_empty js p = (p, [], [])"
  shows "feed js p fragments = addChunk_list js p (concat fragments)"
  using assms
proof (induction fragments arbitrary: p)
  case Nil
  have "more p [] = p" by (simp add: more_def)
  with Nil show ?case by (simp add: addChunk_list_def)
next
  case (Cons fragment fragments)
  obtain p1 t c where r: "addChunk_list js p fragment = (p1, t, c)"
    by (cases "addChunk_list js p fragment")
  then have "from_empty js p1 = (p1, [], [])"
    unfolding addChunk_list_def by (rule fe_settled)
  then have "feed js p1 fragments = addChunk_list js p1 (concat fragments)"
    by (rule Cons.IH)
  with r show ?case
    by (simp add: feed_Cons addChunk_list_append del: feed.simps)
qed

lemma feed_single: "feed js p [s] = addChunk_list js p s"
  by (simp add: feed_Cons prepend_def del: feed.simps(2) split: prod.splits)

text \<open>
  Claim C1. For every response and every way of cutting it into contiguous fragments,
  feeding the fragments one at a time through \<open>addChunk\<close> and then \<open>flush\<close> gives the
  same concatenated text and the same sequence of tool calls as feeding the whole
  response as one fragment.
\<close>

theorem fragmentation_invariance:
  "run_parser js fragments = run_parser js [concat fragments]"
proof -
  have "from_empty js new_parser = (new_parser, [], [])"
    by (simp add: fe_empty new_parser_def)
  then have "feed js new_parser fragments = addChunk_list js new_parser (concat fragments)"
    by (rule feed_concat)
  then have "feed js new_parser fragments = feed js new_parser [concat fragments]"
    by (simp only: feed_single)
  then show ?thesis by (simp only: run_parser_def)
qed

section \<open>What addChunk withholds\<close>

text \<open>
  Claim C6, as stated, fails: with no opening tag in the buffer, \<open>addChunk\<close> withholds six
  characters, not five. On the fragment \<open>abcdefgh\<close> it emits \<open>ab\<close> and keeps
  \<open>cdefgh\<close>; the last five characters are \<open>defgh\<close> and what precedes them is \<open>abc\<close>.
\<close>

theorem withhold_counterexample:
  "addChunk no_json new_parser ''abcdefgh'' =
     (\<lparr>buffer = ''cdefgh'', inToolBlock = False, toolBuffer = []\<rparr>, ''ab'', None)
   \<and> slice_back ''abcdefgh'' 5 = ''defgh'' \<and> slice_front ''abcdefgh'' 5 = ''abc''"
  by (simp add: addChunk_def new_parser_def loop_out_none startsWith_def
        slice_back_def slice_front_def)

lemma addChunk_withholds:
  assumes "\<not> inToolBlock p" and "indexOf (buffer p @ fragment) ''<tool>'' = None"
  shows "addChunk js p fragment =
     (if length (buffer p @ fragment) > 6
      then (p\<lparr>buffer := slice_back (buffer p @ fragment) 6\<rparr>,
            slice_front (buffer p @ fragment) 6, None)
      else (p\<lparr>buffer := buffer p @ fragment\<rparr>, [], None))"
proof (cases "buffer p @ fragment = []")
  case True
  then show ?thesis by (simp add: addChunk_def loop_empty)
next
  case False
  let ?q = "p\<lparr>buffer := buffer p @ fragment\<rparr>"
  have ne: "buffer ?q \<noteq> []" using False by simp
  have out: "\<not> inToolBlock ?q" using assms(1) by simp
  have no: "indexOf (buffer ?q) ''<tool>'' = None" using assms(2) by simp
  show ?thesis
    unfolding addChunk_def loop_out_none [OF ne out no] by simp
qed

text \<open>
  Claim C6, amended. Whenever the loop of \<open>addChunk\<close> is outside a tool block and finds
  no opening tag in the buffer, it stops: of a buffer longer than six characters it
  withholds the last six and appends all that precedes them to the text; a buffer of at
  most six characters is withheld whole and nothing is appended to the text. The tool
  calls are left as they are.
\<close>

theorem withhold_six:
  assumes "\<not> inToolBlock p" and "indexOf (buffer p) ''<tool>'' = None"
  shows "addChunk_loop js p text calls =
     (if length (buffer p) > 6
      then (p\<lparr>buffer := slice_back (buffer p) 6\<rparr>, text @ slice_front (buffer p) 6, calls)
      else (p, text, calls))"
proof (cases "buffer p = []")
  case True
  then show ?thesis by (simp add: loop_empty)
next
  case False
  from False assms show ?thesis by (rule loop_out_none)
qed

theorem withhold_six_witness:
  "\<not> inToolBlock (more new_parser ''abcdefgh'')
   \<and> indexOf (buffer (more new_parser ''abcdefgh'')) ''<tool>'' = None
   \<and> addChunk_loop no_json (more new_parser ''abcdefgh'') ''x'' [] =
       (\<lparr>buffer = ''cdefgh'', inToolBlock = False, toolBuffer = []\<rparr>, ''xab'', [])"
proof -
  have h1: "\<not> inToolBlock (more new_parser ''abcdefgh'')"
    by (simp add: new_parser_def more_def)
  have h2: "indexOf (buffer (more new_parser ''abcdefgh'')) ''<tool>'' = None"
    by (simp add: new_parser_def more_def startsWith_def)
  show ?thesis
    using h1 h2 withhold_six [OF h1 h2, of no_json "''x''" "[]"]
    by (simp add: new_parser_def more_def slice_back_def slice_front_def)
qed

section \<open>Tool blocks without a name\<close>

lemma nameMatch_no_occurrence:
  "indexOf s ''name:'' = None \<Longrightarrow> nameMatch s = None"
  by (induction s) (auto split: if_splits)

text \<open>The search of \<open>nameMatch\<close> finds a match exactly when the pattern matches somewhere.\<close>

lemma dot_run_iff:
  "(\<exists>n. dot_run t n) \<longleftrightarrow>
     (takeWhile is_dot t \<noteq> []
      \<and> (drop (length (takeWhile is_dot t)) t = []
         \<or> hd (drop (length (takeWhile is_dot t)) t) = CHR 0x0A))"
proof
  assume "\<exists>n. dot_run t n"
  then obtain n where n: "0 < n" "n \<le> length t" "list_all is_dot (take n t)"
    and e: "drop n t = [] \<or> hd (drop n t) = CHR 0x0A"
    unfolding dot_run_def by blast
  have stop: "takeWhile is_dot (drop n t) = []"
    using e by (cases "drop n t") (auto simp: is_dot_def)
  have "takeWhile is_dot (take n t @ drop n t) = take n t @ takeWhile is_dot (drop n t)"
    using n(3) by (intro takeWhile_append2) (simp add: list_all_iff)
  then have w: "takeWhile is_dot t = take n t" using stop by simp
  then have "length (takeWhile is_dot t) = n" using n(2) by simp
  with w n(1,2) e show "takeWhile is_dot t \<noteq> []
      \<and> (drop (length (takeWhile is_dot t)) t = []
         \<or> hd (drop (length (takeWhile is_dot t)) t) = CHR 0x0A)"
    by auto
next
  let ?w = "takeWhile is_dot t"
  assume a: "?w \<noteq> [] \<and> (drop (length ?w) t = [] \<or> hd (drop (length ?w) t) = CHR 0x0A)"
  have "take (length ?w) t = ?w" by (simp add: takeWhile_eq_take [symmetric])
  then have "list_all is_dot (take (length ?w) t)"
    by (simp add: list_all_iff) (metis set_takeWhileD)
  moreover have "length ?w \<le> length t" by (rule length_takeWhile_le)
  ultimately have "dot_run t (length ?w)" using a by (simp add: dot_run_def)
  then show "\<exists>n. dot_run t n" ..
qed

lemma name_group_None:
  "name_group r k = None \<longleftrightarrow> \<not> (\<exists>n. dot_run (drop k r) n)"
  unfolding dot_run_iff by (simp add: name_group_def Let_def add.commute)

lemma name_backtrack_None:
  "name_backtrack r m = None \<longleftrightarrow> (\<forall>k\<le>m. name_group r k = None)"
proof (induction m)
  case 0
  show ?case by simp
next
  case (Suc m)
  show ?case
  proof (cases "name_group r (Suc m)")
    case None
    then show ?thesis using Suc by (auto simp: le_Suc_eq)
  next
    case (Some w)
    then show ?thesis by auto
  qed
qed

lemma space_run:
  "k \<le> length r \<and> list_all is_space (take k r) \<longleftrightarrow> k \<le> length (takeWhile is_space r)"
proof
  assume a: "k \<le> length r \<and> list_all is_space (take k r)"
  have "takeWhile is_space (take k r @ drop k r)
        = take k r @ takeWhile is_space (drop k r)"
    using a by (intro takeWhile_append2) (simp add: list_all_iff)
  then have "length (takeWhile is_space r) = k + length (takeWhile is_space (drop k r))"
    using a by simp
  then show "k \<le> length (takeWhile is_space r)" by simp
next
  let ?w = "takeWhile is_space r"
  assume a: "k \<le> length ?w"
  have "take k r = take k ?w"
    using a by (metis takeWhile_eq_take take_take min.absorb1)
  then have "set (take k r) \<subseteq> set ?w" by (simp add: set_take_subset)
  then have "list_all is_space (take k r)"
    by (auto simp: list_all_iff dest: set_takeWhileD)
  moreover have "k \<le> length r" using a length_takeWhile_le [of is_space r] by simp
  ultimately show "k \<le> length r \<and> list_all is_space (take k r)" by simp
qed

lemma name_after_None:
  "name_after r = None \<longleftrightarrow>
     \<not> (\<exists>k n. k \<le> length r \<and> list_all is_space (take k r) \<and> dot_run (drop k r) n)"
proof -
  have "name_after r = None \<longleftrightarrow>
        (\<forall>k\<le>length (takeWhile is_space r). \<not> (\<exists>n. dot_run (drop k r) n))"
    by (simp add: name_after_def name_backtrack_None name_group_None)
  also have "\<dots> \<longleftrightarrow> (\<forall>k. k \<le> length r \<and> list_all is_space (take k r)
                        \<longrightarrow> \<not> (\<exists>n. dot_run (drop k r) n))"
    by (simp only: space_run)
  finally show ?thesis by blast
qed

lemma list_ex_upto: "list_ex P [0..<Suc m] \<longleftrightarrow> (\<exists>k\<le>m. P k)"
  unfolding list_ex_iff by (auto simp del: upt_Suc simp: less_Suc_eq_le)

lemma dot_run_bounded:
  "list_ex (dot_run t) [0..<Suc (length t)] \<longleftrightarrow> (\<exists>n. dot_run t n)"
proof -
  have "(\<exists>n\<le>length t. dot_run t n) \<longleftrightarrow> (\<exists>n. dot_run t n)"
    unfolding dot_run_def by blast
  then show ?thesis by (simp only: list_ex_upto)
qed

lemma nameMatch_None:
  "nameMatch s = None \<longleftrightarrow>
     (\<forall>i. startsWith (drop i s) ''name:'' \<longrightarrow> name_after (drop (i + 5) s) = None)"
proof (induction s)
  case Nil
  show ?case by (simp add: startsWith_def)
next
  case (Cons c cs)
  let ?P = "\<lambda>t i. startsWith (drop i t) ''name:'' \<longrightarrow> name_after (drop (i + 5) t) = None"
  have tail: "\<And>j. ?P (c # cs) (Suc j) \<longleftrightarrow> ?P cs j"
    by (simp only: add_Suc drop_Suc_Cons)
  have "(\<forall>i. ?P (c # cs) i) \<longleftrightarrow> ?P (c # cs) 0 \<and> (\<forall>j. ?P (c # cs) (Suc j))"
    by (metis not0_implies_Suc)
  also have "\<dots> \<longleftrightarrow> ?P (c # cs) 0 \<and> (\<forall>j. ?P cs j)" by (simp only: tail)
  also have "\<dots> \<longleftrightarrow> ?P (c # cs) 0 \<and> nameMatch cs = None" by (simp only: Cons)
  finally have rhs: "(\<forall>i. ?P (c # cs) i) \<longleftrightarrow> ?P (c # cs) 0 \<and> nameMatch cs = None" .
  have lhs: "nameMatch (c # cs) = None \<longleftrightarrow> ?P (c # cs) 0 \<and> nameMatch cs = None"
  proof (cases "startsWith (c # cs) ''name:''")
    case True
    then show ?thesis by (cases "name_after (drop 5 (c # cs))") simp_all
  next
    case False
    then show ?thesis by simp
  qed
  from lhs rhs show ?case by blast
qed

lemma name_pattern_at_iff:
  "name_pattern_at s i \<longleftrightarrow>
     startsWith (drop i s) ''name:'' \<and> name_after (drop (i + 5) s) \<noteq> None"
proof -
  let ?r = "drop (i + 5) s"
  have "list_ex (\<lambda>k. list_all is_space (take k ?r)
                      \<and> list_ex (dot_run (drop k ?r)) [0..<Suc (length (drop k ?r))])
            [0..<Suc (length ?r)]
        \<longleftrightarrow> (\<exists>k\<le>length ?r. list_all is_space (take k ?r) \<and> (\<exists>n. dot_run (drop k ?r) n))"
    unfolding dot_run_bounded by (simp only: list_ex_upto)
  also have "\<dots> \<longleftrightarrow> name_after ?r \<noteq> None"
    unfolding name_after_None by blast
  finally show ?thesis by (simp only: name_pattern_at_def)
qed

lemma nameMatch_None_iff: "nameMatch s = None \<longleftrightarrow> \<not> name_pattern_occurs s"
proof -
  have "(\<exists>i\<le>length s. name_pattern_at s i) \<longleftrightarrow> (\<exists>i. name_pattern_at s i)"
  proof
    assume "\<exists>i\<le>length s. name_pattern_at s i"
    then show "\<exists>i. name_pattern_at s i" by blast
  next
    assume "\<exists>i. name_pattern_at s i"
    then obtain i where i: "name_pattern_at s i" ..
    then have "startsWith (drop i s) ''name:''" by (simp only: name_pattern_at_iff)
    then have "length ''name:'' \<le> length (drop i s)" by (rule startsWith_length)
    then have "i \<le> length s" by simp
    with i show "\<exists>i\<le>length s. name_pattern_at s i" by blast
  qed
  then have "name_pattern_occurs s \<longleftrightarrow> (\<exists>i. name_pattern_at s i)"
    by (simp only: name_pattern_occurs_def list_ex_upto)
  also have "\<dots> \<longleftrightarrow> (\<exists>i. startsWith (drop i s) ''name:''
                          \<and> name_after (drop (i + 5) s) \<noteq> None)"
    by (simp only: name_pattern_at_iff)
  also have "\<dots> \<longleftrightarrow> nameMatch s \<noteq> None"
    unfolding nameMatch_None by simp
  finally show ?thesis by blast
qed

text \<open>
  Claim C10, as stated, fails: the pattern is not tied to the start of a line. The
  content \<open>note: the username: bob\<close> has no \<open>name:\<close> line, and the block yields a tool call
  named \<open>bob\<close>.
\<close>

theorem name_inside_line_counterexample:
  "\<not> has_name_line named_inside_line
   \<and> parseToolContent no_json named_inside_line = Some \<lparr> name = ''bob'', parameters = NoParams \<rparr>
   \<and> run_parser no_json [''<tool>'' @ named_inside_line @ ''</tool>'']
       = ([], [\<lparr> name = ''bob'', parameters = NoParams \<rparr>])"
  by code_simp

text \<open>
  Claim C10, amended. Let the parser be inside a tool block, and let the stream go on, in
  any fragments, with the rest of the block's content, the closing tag and further input.
  The block gives no tool call exactly when the name pattern matches nowhere in its
  content, at the start of a line or inside one. The fragments give the tool call of the
  block, if any, followed by the state, the text and the tool calls that a new parser
  gives on the input behind the closing tag; so a block without a match is dropped and
  what follows it is extracted as usual.
\<close>

theorem block_without_name_pattern:
  assumes "inToolBlock p" and "buffer p = []"
    and "indexOf (toolBuffer p @ body) ''</tool>'' = None"
    and "concat fragments = body @ ''</tool>'' @ rest"
  shows "(parseToolContent js (toolBuffer p @ body) = None
            \<longleftrightarrow> \<not> name_pattern_occurs (toolBuffer p @ body))
       \<and> feed js p fragments =
           prepend [] (block_calls js (toolBuffer p @ body)) (feed js new_parser [rest])
       \<and> (\<not> name_pattern_occurs (toolBuffer p @ body)
            \<longrightarrow> feed js p fragments = feed js new_parser [rest])"
proof -
  let ?all = "body @ ''</tool>'' @ rest"
  let ?q = "more p ?all"
  let ?tb = "toolBuffer p @ body"
  have iff: "parseToolContent js ?tb = None \<longleftrightarrow> \<not> name_pattern_occurs ?tb"
    by (simp add: parseToolContent_def nameMatch_None_iff [symmetric] split: option.splits)
  have settled: "from_empty js p = (p, [], [])" using assms(2) by (rule fe_empty)
  have ne: "buffer ?q \<noteq> []" by (simp add: more_def)
  have inn: "inToolBlock ?q" using assms(1) by (simp add: more_def)
  have ix: "indexOf (toolBuffer ?q @ buffer ?q) ''</tool>'' = Some (length ?tb)"
    using first_closing_tag [OF assms(3), of rest] assms(2) by (simp add: more_def)
  have st: "?q\<lparr>toolBuffer := [],
               buffer := drop (length ?tb + 7) (toolBuffer ?q @ buffer ?q),
               inToolBlock := False\<rparr> = more new_parser rest"
    using assms(2) by (cases p) (simp add: more_def new_parser_def)
  have tk: "take (length ?tb) (toolBuffer ?q @ buffer ?q) = ?tb"
    using assms(2) by (simp add: more_def)
  have "feed js p fragments = addChunk_list js p ?all"
    using feed_concat [OF settled, of fragments] assms(4) by simp
  also have "\<dots> = prepend [] (block_calls js ?tb) (from_empty js (more new_parser rest))"
    unfolding addChunk_list_def fe_in_some [OF ne inn ix] st tk by (rule refl)
  also have "from_empty js (more new_parser rest) = feed js new_parser [rest]"
    by (simp only: feed_single addChunk_list_def)
  finally have fd: "feed js p fragments =
      prepend [] (block_calls js ?tb) (feed js new_parser [rest])" .
  have "\<not> name_pattern_occurs ?tb \<longrightarrow> feed js p fragments = feed js new_parser [rest]"
  proof
    assume "\<not> name_pattern_occurs ?tb"
    then have "block_calls js ?tb = []" using iff by (simp add: block_calls_def)
    then show "feed js p fragments = feed js new_parser [rest]"
      unfolding fd by (simp only: prepend_Nil)
  qed
  with iff fd show ?thesis by blast
qed

theorem block_without_name_pattern_witness:
  "inToolBlock inside_nameless \<and> buffer inside_nameless = []
   \<and> indexOf (toolBuffer inside_nameless @ ''x'') ''</tool>'' = None
   \<and> concat closing_fragments = ''x'' @ ''</tool>'' @ rest_after
   \<and> (parseToolContent no_json (toolBuffer inside_nameless @ ''x'') = None
        \<longleftrightarrow> \<not> name_pattern_occurs (toolBuffer inside_nameless @ ''x''))
   \<and> feed no_json inside_nameless closing_fragments =
       prepend [] (block_calls no_json (toolBuffer inside_nameless @ ''x''))
         (feed no_json new_parser [rest_after])
   \<and> \<not> name_pattern_occurs (toolBuffer inside_nameless @ ''x'')
   \<and> feed no_json inside_nameless closing_fragments =
       (\<lparr>buffer = ''ye bye'', inToolBlock = False, toolBuffer = []\<rparr>, ''hello  b'',
        [\<lparr> name = ''b'', parameters = NoParams \<rparr>])"
proof -
  have h1: "inToolBlock inside_nameless" by (simp add: inside_nameless_def)
  have h2: "buffer inside_nameless = []" by (simp add: inside_nameless_def)
  have h3: "indexOf (toolBuffer inside_nameless @ ''x'') ''</tool>'' = None"
    by (simp add: inside_nameless_def startsWith_def)
  have h4: "concat closing_fragments = ''x'' @ ''</tool>'' @ rest_after"
    by (simp add: closing_fragments_def rest_after_def)
  have n: "\<not> name_pattern_occurs (toolBuffer inside_nameless @ ''x'')" by code_simp
  have v: "feed no_json inside_nameless closing_fragments =
       (\<lparr>buffer = ''ye bye'', inToolBlock = False, toolBuffer = []\<rparr>, ''hello  b'',
        [\<lparr> name = ''b'', parameters = NoParams \<rparr>])" by code_simp
  from h1 h2 h3 h4 block_without_name_pattern [OF h1 h2 h3 h4, of no_json] n v
  show ?thesis by (intro conjI) simp_all
qed

section \<open>Deduplication of tool calls\<close>





lemma executions_append [simp]: "executions (xs @ ys) = executions xs @ executions ys"
  by (induction xs rule: executions.induct) simp_all

lemma result_calls_append [simp]: "result_calls (xs @ ys) = result_calls xs @ result_calls ys"
  by (induction xs rule: result_calls.induct) simp_all

lemma executions_started [simp]: "executions (map Execute tcs) = tcs"
  by (induction tcs) simp_all

lemma result_calls_started [simp]: "result_calls (map Execute tcs) = []"
  by (induction tcs) simp_all








section \<open>Compaction\<close>

lemma estimateTokens_append [simp]:
  "estimateTokens (xs @ ys) = estimateTokens xs + estimateTokens ys"
  by (induction xs) simp_all

lemma estimateTokens_replicate [simp]:
  "estimateTokens (replicate n m) = n * message_tokens m"
  by (induction n) simp_all

lemma estimateTokens_take: "estimateTokens (take n xs) \<le> estimateTokens xs"
proof -
  have "estimateTokens (take n xs @ drop n xs) = estimateTokens xs" by simp
  then show ?thesis unfolding estimateTokens_append by linarith
qed

lemma saveMessage_trigger:
  "saveMessage openai m sessionId r c =
     (let m1 = m\<lparr> messageCache :=
                    (messageCache m)
                      (sessionId \<mapsto> getMessages m sessionId @ [\<lparr> role = r, content = Str c \<rparr>]) \<rparr>;
          messages = getMessages m1 sessionId
      in if length messages > 20 \<or> (length messages \<ge> 15 \<and> estimateTokens messages > 8000)
         then compactMemory openai m1 sessionId else m1)"
  by (auto simp: saveMessage_def shouldCompact_def Let_def
        COMPACT_THRESHOLD_def MAX_MESSAGES_def MAX_TOKENS_ESTIMATE_def)

lemma compactMemory_result:
  assumes "length (getMessages m sessionId) \<ge> 15"
  shows "getMessages (compactMemory openai m sessionId) sessionId =
           \<lparr> role = System,
             content = Str (''[Memory Summary]'' @ [CHR 0x0A] @
                            generateSummary openai (slice_front (getMessages m sessionId) 10)) \<rparr>
           # slice_back (getMessages m sessionId) 10"
    and "getCompactedMemories (compactMemory openai m sessionId) sessionId =
           getCompactedMemories m sessionId @
           [\<lparr> summary = generateSummary openai (slice_front (getMessages m sessionId) 10),
              fromId = 0, toId = length (getMessages m sessionId) - 10,
              messageCount = length (getMessages m sessionId) - 10 \<rparr>]"
proof -
  have ne: "slice_front (getMessages m sessionId) 10 \<noteq> []"
    using assms by (auto simp: slice_front_def)
  have lt: "\<not> length (getMessages m sessionId) < COMPACT_THRESHOLD"
    using assms by (simp add: COMPACT_THRESHOLD_def)
  let ?m' = "compactMemory openai m sessionId"
  have c: "messageCache ?m' sessionId =
        Some (\<lparr> role = System,
             content = Str (''[Memory Summary]'' @ [CHR 0x0A] @
                            generateSummary openai (slice_front (getMessages m sessionId) 10)) \<rparr>
           # slice_back (getMessages m sessionId) 10)"
    using ne lt by (simp add: compactMemory_def Let_def KEEP_RECENT_def)
  then show "getMessages ?m' sessionId =
           \<lparr> role = System,
             content = Str (''[Memory Summary]'' @ [CHR 0x0A] @
                            generateSummary openai (slice_front (getMessages m sessionId) 10)) \<rparr>
           # slice_back (getMessages m sessionId) 10"
    by (simp add: getMessages_def)
  have "compactedMemories ?m' sessionId =
        Some (getCompactedMemories m sessionId @
           [\<lparr> summary = generateSummary openai (slice_front (getMessages m sessionId) 10),
              fromId = 0, toId = length (getMessages m sessionId) - 10,
              messageCount = length (getMessages m sessionId) - 10 \<rparr>])"
    using ne lt by (simp add: compactMemory_def Let_def KEEP_RECENT_def slice_front_def)
  then show "getCompactedMemories ?m' sessionId =
           getCompactedMemories m sessionId @
           [\<lparr> summary = generateSummary openai (slice_front (getMessages m sessionId) 10),
              fromId = 0, toId = length (getMessages m sessionId) - 10,
              messageCount = length (getMessages m sessionId) - 10 \<rparr>]"
    by (simp add: getCompactedMemories_def)
qed

lemma saveMessage_quiet:
  assumes "length (getMessages m sessionId) < 20"
    and "estimateTokens (getMessages m sessionId @ [to_message (r, c)]) \<le> 8000"
  shows "getMessages (saveMessage openai m sessionId r c) sessionId =
           getMessages m sessionId @ [to_message (r, c)]"
    and "getCompactedMemories (saveMessage openai m sessionId r c) sessionId =
           getCompactedMemories m sessionId"
  using assms
  by (simp_all add: saveMessage_trigger Let_def getMessages_def getCompactedMemories_def
        to_message_def)

lemma saveMessages_quiet:
  assumes "length (getMessages m sessionId) + length items \<le> 20"
    and "estimateTokens (getMessages m sessionId @ map to_message items) \<le> 8000"
  shows "getMessages (saveMessages openai m sessionId items) sessionId =
           getMessages m sessionId @ map to_message items
       \<and> getCompactedMemories (saveMessages openai m sessionId items) sessionId =
           getCompactedMemories m sessionId"
  using assms
proof (induction items arbitrary: m)
  case Nil
  show ?case by simp
next
  case (Cons x items)
  obtain r c where x: "x = (r, c)" by (cases x)
  let ?m1 = "saveMessage openai m sessionId r c"
  have l: "length (getMessages m sessionId) < 20" using Cons.prems(1) by simp
  have t: "estimateTokens (getMessages m sessionId @ [to_message (r, c)]) \<le> 8000"
    using Cons.prems(2) x by simp
  note q = saveMessage_quiet [OF l t, of openai]
  have "length (getMessages ?m1 sessionId) + length items \<le> 20"
    using Cons.prems(1) q(1) by simp
  moreover have "estimateTokens (getMessages ?m1 sessionId @ map to_message items) \<le> 8000"
    using Cons.prems(2) q(1) x by simp
  ultimately have "getMessages (saveMessages openai ?m1 sessionId items) sessionId =
           getMessages ?m1 sessionId @ map to_message items
       \<and> getCompactedMemories (saveMessages openai ?m1 sessionId items) sessionId =
           getCompactedMemories ?m1 sessionId"
    by (rule Cons.IH)
  then show ?case using q x by simp
qed

lemma saveMessages_snoc:
  "saveMessages openai m sessionId (items @ [(r, c)]) =
     saveMessage openai (saveMessages openai m sessionId items) sessionId r c"
  by (induction items arbitrary: m) auto

lemma new_memory_empty [simp]:
  "getMessages new_memory sessionId = []" "getCompactedMemories new_memory sessionId = []"
  by (simp_all add: new_memory_def getMessages_def getCompactedMemories_def)

text \<open>
  Claim C4, as stated, fails at a cached count of exactly 15: appending a fifteenth
  message to a cache whose estimated tokens exceed the budget triggers compaction (the
  cache is left with the summary and ten messages), though the count does not exceed 15.
\<close>

theorem trigger_at_threshold_counterexample:
  "shouldCompact (cached (fourteen @ [short_message])) ''s''
   \<and> length (fourteen @ [short_message]) = 15
   \<and> estimateTokens (fourteen @ [short_message]) = 8020
   \<and> length (getMessages (saveMessage failing_openai (cached fourteen) ''s'' User ''hi'') ''s'')
       = 11"
  by (simp add: saveMessage_def shouldCompact_def compactMemory_def getMessages_def cached_def
        fourteen_def short_message_def long_message_def ceil_2_5_def Let_def
        COMPACT_THRESHOLD_def MAX_MESSAGES_def MAX_TOKENS_ESTIMATE_def KEEP_RECENT_def
        slice_front_def slice_back_def)

text \<open>
  Claim C4, amended. After every append, compaction is triggered if and only if the
  cached message count exceeds 20, or the cached message count is at least 15 and the
  estimated token count exceeds 8000.
\<close>

theorem compaction_trigger:
  "saveMessage openai m sessionId r c =
     (let m1 = m\<lparr> messageCache :=
                    (messageCache m)
                      (sessionId \<mapsto> getMessages m sessionId @ [\<lparr> role = r, content = Str c \<rparr>]) \<rparr>;
          messages = getMessages m1 sessionId
      in if length messages > 20 \<or> (length messages \<ge> 15 \<and> estimateTokens messages > 8000)
         then compactMemory openai m1 sessionId else m1)"
  by (rule saveMessage_trigger)

text \<open>
  Claim C3, as stated, fails: when the summarization call throws, compaction goes on
  with the text \<open>Summary generation failed\<close>. Of 21 cached messages, the first 11 are
  replaced by a summary message with that text.
\<close>

theorem failed_summary_counterexample:
  "getMessages (compactMemory failing_openai (cached twenty_one) ''s'') ''s''
     = \<lparr> role = System, content = Str ''[Memory Summary]\<newline>Summary generation failed'' \<rparr>
       # drop 11 twenty_one"
  by (simp add: compactMemory_def getMessages_def cached_def twenty_one_def Let_def
        COMPACT_THRESHOLD_def KEEP_RECENT_def slice_front_def slice_back_def
        generateSummary_def failing_openai_def)

text \<open>
  Claim C3, amended. If the summarization call made during compaction fails,
  \<open>generateSummary\<close> returns the text \<open>Summary generation failed\<close> and compaction
  completes with it: the cache becomes a summary message with that text followed by the
  last 10 messages, and a CompactedMemory with that summary and the count of the
  compacted messages is appended.
\<close>

theorem failed_summary_compacts:
  assumes "length (getMessages m sessionId) \<ge> 15"
    and "openai (find is_previous_summary (slice_front (getMessages m sessionId) 10) \<noteq> None)
           (slice_front (getMessages m sessionId) 10) = Throws"
  shows "getMessages (compactMemory openai m sessionId) sessionId =
           \<lparr> role = System, content = Str ''[Memory Summary]\<newline>Summary generation failed'' \<rparr>
           # slice_back (getMessages m sessionId) 10
       \<and> getCompactedMemories (compactMemory openai m sessionId) sessionId =
           getCompactedMemories m sessionId @
           [\<lparr> summary = ''Summary generation failed'', fromId = 0,
              toId = length (getMessages m sessionId) - 10,
              messageCount = length (getMessages m sessionId) - 10 \<rparr>]"
proof -
  have "generateSummary openai (slice_front (getMessages m sessionId) 10)
        = ''Summary generation failed''"
    using assms(2) by (simp add: generateSummary_def)
  then show ?thesis
    using compactMemory_result [OF assms(1), of openai] by simp
qed

theorem failed_summary_compacts_witness:
  "length (getMessages (cached twenty_one) ''s'') \<ge> 15
   \<and> failing_openai
        (find is_previous_summary (slice_front (getMessages (cached twenty_one) ''s'') 10) \<noteq> None)
        (slice_front (getMessages (cached twenty_one) ''s'') 10) = Throws
   \<and> getMessages (compactMemory failing_openai (cached twenty_one) ''s'') ''s'' =
         \<lparr> role = System, content = Str ''[Memory Summary]\<newline>Summary generation failed'' \<rparr>
         # slice_back (getMessages (cached twenty_one) ''s'') 10
   \<and> getCompactedMemories (compactMemory failing_openai (cached twenty_one) ''s'') ''s'' =
         getCompactedMemories (cached twenty_one) ''s'' @
         [\<lparr> summary = ''Summary generation failed'', fromId = 0,
            toId = length (getMessages (cached twenty_one) ''s'') - 10,
            messageCount = length (getMessages (cached twenty_one) ''s'') - 10 \<rparr>]"
proof -
  have h1: "length (getMessages (cached twenty_one) ''s'') \<ge> 15"
    by (simp add: getMessages_def cached_def twenty_one_def)
  have h2: "failing_openai
        (find is_previous_summary (slice_front (getMessages (cached twenty_one) ''s'') 10) \<noteq> None)
        (slice_front (getMessages (cached twenty_one) ''s'') 10) = Throws"
    by (simp add: failing_openai_def)
  from h1 h2
    failed_summary_compacts
      [where m = "cached twenty_one" and sessionId = "''s''" and openai = failing_openai,
       OF h1 h2]
  show ?thesis by (intro conjI) simp_all
qed

text \<open>
  Claim C5, as stated, fails: sixteen short text messages appended one per call leave
  the sixteen messages in the cache and no CompactedMemory; the sixteenth append
  triggers no compaction.
\<close>

theorem sixteen_appends_counterexample:
  "getMessages (saveMessages fixed_openai new_memory ''s'' sixteen_items) ''s''
     = map to_message sixteen_items
   \<and> getCompactedMemories (saveMessages fixed_openai new_memory ''s'' sixteen_items) ''s'' = []
   \<and> length sixteen_items = 16"
proof -
  have "length (getMessages new_memory ''s'') + length sixteen_items \<le> 20"
    by (simp add: sixteen_items_def)
  moreover have "estimateTokens (getMessages new_memory ''s'' @ map to_message sixteen_items) \<le> 8000"
    by (simp add: sixteen_items_def to_message_def ceil_2_5_def)
  ultimately show ?thesis
    using saveMessages_quiet [of new_memory "''s''" sixteen_items fixed_openai]
    by (simp add: sixteen_items_def)
qed

text \<open>
  Claim C5, amended. For short text messages appended one per call (estimated tokens
  within the budget), the first sixteen appends trigger no compaction: the cache holds the
  sixteen messages and no CompactedMemory exists. \<open>compactMemory\<close> run on that cache
  leaves a single summary message followed by messages 7 through 16 (10 kept) and exactly
  one CompactedMemory, with messageCount 6. The append that triggers compaction is the
  twenty-first: after it the cache is a single summary message followed by messages 12
  through 21, and exactly one CompactedMemory exists, with messageCount 11.
\<close>

theorem sixteen_appends_no_compaction:
  assumes "length items = 21"
    and "estimateTokens (map to_message items) \<le> 8000"
  shows "getMessages (saveMessages openai new_memory sessionId (take 16 items)) sessionId
           = map to_message (take 16 items)
       \<and> getCompactedMemories (saveMessages openai new_memory sessionId (take 16 items)) sessionId = []
       \<and> getMessages (compactMemory openai
             (saveMessages openai new_memory sessionId (take 16 items)) sessionId) sessionId
           = \<lparr> role = System,
               content = Str (''[Memory Summary]'' @ [CHR 0x0A] @
                              generateSummary openai (map to_message (take 6 items))) \<rparr>
             # map to_message (drop 6 (take 16 items))
       \<and> getCompactedMemories (compactMemory openai
             (saveMessages openai new_memory sessionId (take 16 items)) sessionId) sessionId
           = [\<lparr> summary = generateSummary openai (map to_message (take 6 items)),
                fromId = 0, toId = 6, messageCount = 6 \<rparr>]
       \<and> getMessages (saveMessages openai new_memory sessionId items) sessionId
           = \<lparr> role = System,
               content = Str (''[Memory Summary]'' @ [CHR 0x0A] @
                              generateSummary openai (map to_message (take 11 items))) \<rparr>
             # map to_message (drop 11 items)
       \<and> getCompactedMemories (saveMessages openai new_memory sessionId items) sessionId
           = [\<lparr> summary = generateSummary openai (map to_message (take 11 items)),
                fromId = 0, toId = 11, messageCount = 11 \<rparr>]"
proof -
  let ?m16 = "saveMessages openai new_memory sessionId (take 16 items)"
  let ?m20 = "saveMessages openai new_memory sessionId (take 20 items)"
  have tk: "\<And>n. estimateTokens (map to_message (take n items)) \<le> 8000"
    using estimateTokens_take [of _ "map to_message items"] assms(2)
    by (metis le_trans take_map)
  have q16: "getMessages ?m16 sessionId = map to_message (take 16 items)
           \<and> getCompactedMemories ?m16 sessionId = []"
    using saveMessages_quiet [of new_memory sessionId "take 16 items" openai] tk [of 16] assms(1)
    by simp
  have q20: "getMessages ?m20 sessionId = map to_message (take 20 items)
           \<and> getCompactedMemories ?m20 sessionId = []"
    using saveMessages_quiet [of new_memory sessionId "take 20 items" openai] tk [of 20] assms(1)
    by simp
  have l16: "length (getMessages ?m16 sessionId) \<ge> 15" using q16 assms(1) by simp
  have sf16: "slice_front (getMessages ?m16 sessionId) 10 = map to_message (take 6 items)"
    using q16 assms(1) by (simp add: slice_front_def take_map min_def)
  have sb16: "slice_back (getMessages ?m16 sessionId) 10 = map to_message (drop 6 (take 16 items))"
    using q16 assms(1) by (simp add: slice_back_def drop_map)
  note c16 = compactMemory_result [OF l16, of openai]
  obtain r c where last: "items = take 20 items @ [(r, c)]"
  proof -
    have "items = take 20 items @ drop 20 items" by simp
    moreover have "length (drop 20 items) = 1" using assms(1) by simp
    then obtain x where "drop 20 items = [x]"
      by (cases "drop 20 items") auto
    ultimately have "items = take 20 items @ [(fst x, snd x)]" by simp
    then show ?thesis by (rule that)
  qed
  let ?m1 = "?m20\<lparr> messageCache := (messageCache ?m20)
               (sessionId \<mapsto> getMessages ?m20 sessionId @ [\<lparr> role = r, content = Str c \<rparr>]) \<rparr>"
  have g1: "getMessages ?m1 sessionId = map to_message items"
  proof -
    have "getMessages ?m1 sessionId = map to_message (take 20 items) @ [to_message (r, c)]"
      using q20 by (simp add: getMessages_def to_message_def)
    also have "\<dots> = map to_message (take 20 items @ [(r, c)])" by simp
    finally show ?thesis using last by simp
  qed
  have gc1: "getCompactedMemories ?m1 sessionId = []"
    using q20 by (simp add: getCompactedMemories_def)
  have "saveMessages openai new_memory sessionId items = saveMessage openai ?m20 sessionId r c"
    using saveMessages_snoc [of openai new_memory sessionId "take 20 items" r c] last by simp
  also have "\<dots> = compactMemory openai ?m1 sessionId"
    unfolding compaction_trigger using g1 assms(1) by (simp add: Let_def)
  finally have m21: "saveMessages openai new_memory sessionId items = compactMemory openai ?m1 sessionId" .
  have l21: "length (getMessages ?m1 sessionId) \<ge> 15" using g1 assms(1) by simp
  have sf21: "slice_front (getMessages ?m1 sessionId) 10 = map to_message (take 11 items)"
    unfolding g1 using assms(1) by (simp add: slice_front_def take_map)
  have sb21: "slice_back (getMessages ?m1 sessionId) 10 = map to_message (drop 11 items)"
    unfolding g1 using assms(1) by (simp add: slice_back_def drop_map)
  have len21: "length (getMessages ?m1 sessionId) = 21" unfolding g1 using assms(1) by simp
  have len16: "length (getMessages ?m16 sessionId) = 16" using q16 assms(1) by simp
  note c21 = compactMemory_result [OF l21, of openai]
  show ?thesis
    unfolding m21 c21 c16 sf16 sb16 sf21 sb21 gc1 len21 len16
    using q16 by simp
qed

theorem sixteen_appends_no_compaction_witness:
  "length twenty_one_items = 21
   \<and> estimateTokens (map to_message twenty_one_items) \<le> 8000
   \<and> getCompactedMemories
         (saveMessages fixed_openai new_memory ''s'' (take 16 twenty_one_items)) ''s'' = []
   \<and> getCompactedMemories (saveMessages fixed_openai new_memory ''s'' twenty_one_items) ''s''
       = [\<lparr> summary = generateSummary fixed_openai (map to_message (take 11 twenty_one_items)),
            fromId = 0, toId = 11, messageCount = 11 \<rparr>]"
proof -
  have h1: "length twenty_one_items = 21" by (simp add: twenty_one_items_def)
  have h2: "estimateTokens (map to_message twenty_one_items) \<le> 8000"
    by (simp add: twenty_one_items_def to_message_def ceil_2_5_def)
  from h1 h2 sixteen_appends_no_compaction [OF h1 h2, of fixed_openai "''s''"]
  show ?thesis by (intro conjI) simp_all
qed

section \<open>Runs of execute\<close>

text \<open>
  Claim C2 fails on the code: a run that completes with no tool call on the last allowed
  turn emits \<open>done\<close> and then the turn-limit error. With \<open>maxTurns = 1\<close> and the answer
  \<open>Hello\<close>:
\<close>

theorem done_then_turn_limit:
  "events (execute (scripted says_hello (Some 1)) ''hi'')
     = [TextEvent ''Hello'', DoneEvent, ErrorEvent ''Max turns reached'']
   \<and> filter is_terminal (events (execute (scripted says_hello (Some 1)) ''hi''))
     = [DoneEvent, ErrorEvent ''Max turns reached'']"
  by code_simp

text \<open>
  Claim C8 fails on the code: text that follows a tool block in the chunk that completes
  the block is emitted, in a text event that precedes the \<open>tool_call\<close> event of that
  chunk, since \<open>hasToolCalls\<close> is set after the text of the chunk is emitted.
\<close>

theorem text_after_tool_block_forwarded:
  "streamLLM no_json tool_then_text False ([] :: (unit, string) action list)
     = Inr (''<tool>name: a</tool>Hello world!!'', [tool_a], False,
            [Emit (TextEvent ''Hello w''), Emit (ToolCallEvent tool_a)])"
  by code_simp

text \<open>
  Claim C9 fails on the code. When \<open>abort\<close> is called while a turn streams, the loop
  of \<open>streamLLM\<close> stops, but the flush still emits the withheld text, and \<open>execute\<close>
  goes on: with no tool call parsed it emits \<open>done\<close>; with a tool call parsed it starts
  the execution and only then emits the aborted error.
\<close>

theorem cancelled_mid_stream:
  "execute (scripted cancelled_text None) ''q''
     = [Save User ''q'', Emit (TextEvent ''Hello, this is a long''), AbortCalled,
        Emit (TextEvent '' reply''), Save Assistant ''Hello, this is a long reply'',
        Emit DoneEvent]
   \<and> execute (scripted cancelled_tool None) ''q''
     = [Save User ''q'', Emit (ToolCallEvent tool_a), AbortCalled,
        Save Assistant ''<tool>name: a</tool>'', Execute tool_a,
        Save System ''[Tool Result for a]\<newline>ok'', Emit (ToolResultEvent tool_a ''ok''),
        Emit (ErrorEvent ''Execution aborted by user'')]"
  by code_simp

end
